theory Spec2Isabelle
  imports Complex_Main "HOL-Library.Word" "HOL-Library.Char_ord" "HOL-Library.List_Lexorder"
begin

section \<open>Conventions\<close>

text \<open>
  The program is TypeScript. Its \<^verbatim>\<open>number\<close> values are modelled as mathematical
  numbers: \<^typ>\<open>real\<close> where the code computes with fractions, \<^typ>\<open>int\<close> and
  \<^typ>\<open>nat\<close> where a value is an integer by construction (a rounded zoom level, a
  tile index obtained by \<^verbatim>\<open>Math.floor\<close>, a counter, a time in milliseconds). The
  rounding of IEEE doubles is not modelled. The non-finite values (\<^verbatim>\<open>NaN\<close>,
  \<^verbatim>\<open>Infinity\<close>) appear only where the code tests for them, as constructors of
  their own. A thrown exception is the \<open>Inl\<close> side of a sum type, \<^verbatim>\<open>null\<close> is
  \<open>None\<close>.
\<close>

section \<open>Pixel diff engine (DiffViewer, the diff loop)\<close>

text \<open>
  An \<^verbatim>\<open>ImageData\<close>: \<open>data\<close> holds four bytes (R, G, B, A) per pixel, row-major.
  The browser guarantees \<open>width \<ge> 1\<close>, \<open>height \<ge> 1\<close> and
  \<open>length data = 4 * width * height\<close>, so the loop below never reads out of range.
\<close>

record ImageData =
  width :: nat
  height :: nat
  data :: "8 word list"

record DiffStats =
  st_width :: nat
  st_height :: nat
  meanDiff :: real
  changedPercent :: real

datatype diff_error = AllPixelsMasked

definition luma :: "real \<Rightarrow> real \<Rightarrow> real \<Rightarrow> real" where
  "luma r g b = 0.2126 * r + 0.7152 * g + 0.0722 * b"

definition saturation :: "real \<Rightarrow> real \<Rightarrow> real \<Rightarrow> real" where
  "saturation r g b =
     (let mx = max (max r g) b; mn = min (min r g) b
      in if mx \<le> 0 then 0 else (mx - mn) / mx)"

definition isCloudLike :: "real \<Rightarrow> real \<Rightarrow> real \<Rightarrow> bool" where
  "isCloudLike r g b = (let y = luma r g b; s = saturation r g b in y \<ge> 210 \<and> s \<le> 0.18)"

definition isVeryDark :: "real \<Rightarrow> real \<Rightarrow> real \<Rightarrow> bool" where
  "isVeryDark r g b = (luma r g b \<le> 18)"

text \<open>Reading one channel of a typed array as a number.\<close>

definition chan :: "8 word list \<Rightarrow> nat \<Rightarrow> real" where
  "chan d k = real (unat (d ! k))"

text \<open>
  The condition of the masking branch for pixel \<open>i\<close> (the \<^verbatim>\<open>if\<close> that ends in
  \<^verbatim>\<open>continue\<close>).
\<close>

definition masked :: "bool \<Rightarrow> bool \<Rightarrow> 8 word list \<Rightarrow> 8 word list \<Rightarrow> nat \<Rightarrow> bool" where
  "masked ignoreClouds ignoreDark ad bd i =
     (let idx = i * 4;
          ar = chan ad idx; ag = chan ad (idx + 1); ab = chan ad (idx + 2);
          br = chan bd idx; bg = chan bd (idx + 1); bb = chan bd (idx + 2)
      in (ignoreClouds \<and> (isCloudLike ar ag ab \<or> isCloudLike br bg bb)) \<or>
         (ignoreDark \<and> (isVeryDark ar ag ab \<or> isVeryDark br bg bb)))"

text \<open>The per-pixel difference \<open>d\<close> of an unmasked pixel.\<close>

definition pixel_d :: "8 word list \<Rightarrow> 8 word list \<Rightarrow> nat \<Rightarrow> real" where
  "pixel_d ad bd i =
     (let idx = i * 4;
          dr = \<bar>chan ad idx - chan bd idx\<bar>;
          dg = \<bar>chan ad (idx + 1) - chan bd (idx + 1)\<bar>;
          db = \<bar>chan ad (idx + 2) - chan bd (idx + 2)\<bar>
      in (dr + dg + db) / 3)"

text \<open>
  Storing a number into a \<^verbatim>\<open>Uint8ClampedArray\<close>: clamp to \<open>0..255\<close>, round to the
  nearest integer, ties to even.
\<close>

definition toUint8Clamped :: "real \<Rightarrow> nat" where
  "toUint8Clamped v =
     (if v \<le> 0 then 0 else if v \<ge> 255 then 255
      else let f = \<lfloor>v\<rfloor>; r = v - of_int f
           in nat (if r < 1 / 2 then f else if r > 1 / 2 then f + 1
                   else if even f then f else f + 1))"

text \<open>The variables the loop updates: \<open>sum\<close>, \<open>changed\<close>, \<open>considered\<close> and the heatmap \<open>od\<close>.\<close>

record DiffAcc =
  acc_sum :: real
  changed :: nat
  considered :: nat
  od :: "nat list"

definition diff_pixel ::
  "real \<Rightarrow> bool \<Rightarrow> bool \<Rightarrow> 8 word list \<Rightarrow> 8 word list \<Rightarrow> nat \<Rightarrow> DiffAcc \<Rightarrow> DiffAcc" where
  "diff_pixel threshold ignoreClouds ignoreDark ad bd i acc =
     (let idx = i * 4 in
      if masked ignoreClouds ignoreDark ad bd i
      then acc\<lparr>od := (od acc)[idx := 255, idx + 1 := 0, idx + 2 := 0, idx + 3 := 0]\<rparr>
      else
        let d = pixel_d ad bd i;
            hot = (d \<ge> threshold)
        in acc\<lparr>acc_sum := acc_sum acc + d,
               considered := considered acc + 1,
               changed := (if hot then changed acc + 1 else changed acc),
               od := (od acc)[idx := 255, idx + 1 := 0, idx + 2 := 0,
                              idx + 3 := (if hot then toUint8Clamped (min 220 (40 + d)) else 0)]\<rparr>)"

definition diff_loop ::
  "real \<Rightarrow> bool \<Rightarrow> bool \<Rightarrow> 8 word list \<Rightarrow> 8 word list \<Rightarrow> nat \<Rightarrow> DiffAcc" where
  "diff_loop threshold ignoreClouds ignoreDark ad bd n =
     fold (diff_pixel threshold ignoreClouds ignoreDark ad bd) [0..<n]
       \<lparr>acc_sum = 0, changed = 0, considered = 0, od = replicate (4 * n) 0\<rparr>"

text \<open>
  The diff computation of \<^verbatim>\<open>DiffViewer\<close>, from the working dimensions to the
  statistics; the spec calls it \<^verbatim>\<open>computeDiff\<close>. The result is the heatmap bytes and
  the statistics, or the error thrown when \<open>considered\<close> is \<open>0\<close>.
\<close>

definition computeDiff ::
  "ImageData \<Rightarrow> ImageData \<Rightarrow> real \<Rightarrow> bool \<Rightarrow> bool \<Rightarrow> diff_error + (nat list \<times> DiffStats)" where
  "computeDiff a b threshold ignoreClouds ignoreDark =
     (let w = min (width a) (width b);
          h = min (height a) (height b);
          n = w * h;
          acc = diff_loop threshold ignoreClouds ignoreDark (data a) (data b) n
      in if considered acc = 0 then Inl AllPixelsMasked
         else Inr (od acc,
                   \<lparr>st_width = w, st_height = h,
                    meanDiff = acc_sum acc / real (considered acc),
                    changedPercent = (real (changed acc) / real (considered acc)) * 100\<rparr>))"

text \<open>An all-white buffer of the given size (every byte 255).\<close>

definition white_image :: "nat \<Rightarrow> nat \<Rightarrow> ImageData" where
  "white_image w h = \<lparr>width = w, height = h, data = replicate (4 * w * h) 255\<rparr>"

text \<open>Example buffers of one pixel each.\<close>

definition gray_pixel :: ImageData where
  "gray_pixel = \<lparr>width = 1, height = 1, data = [100, 100, 100, 255]\<rparr>"

definition black_pixel :: ImageData where
  "black_pixel = \<lparr>width = 1, height = 1, data = [0, 0, 0, 255]\<rparr>"

definition before_pixel :: ImageData where
  "before_pixel = \<lparr>width = 1, height = 1, data = [100, 100, 100, 255]\<rparr>"

definition after_pixel :: ImageData where
  "after_pixel = \<lparr>width = 1, height = 1, data = [140, 140, 100, 255]\<rparr>"

section \<open>Coordinate projection\<close>

text \<open>A bounding box is the array \<^verbatim>\<open>[minLng, minLat, maxLng, maxLat]\<close>.\<close>

type_synonym BBox = "real \<times> real \<times> real \<times> real"

text \<open>\<^verbatim>\<open>Math.round\<close>: the nearest integer, a tie going up.\<close>

definition js_round :: "real \<Rightarrow> int" where
  "js_round v = \<lfloor>v + 1 / 2\<rfloor>"

definition clampLat :: "real \<Rightarrow> real" where
  "clampLat lat = max (- 85.05112878) (min 85.05112878 lat)"

text \<open>
  The world pixel \<open>(x, y)\<close> of a longitude and latitude at zoom \<open>z\<close>. The zoom is a
  natural number: every caller passes a value that was rounded and clamped to \<open>0..24\<close>.
\<close>

definition lonLatToWorldPx :: "real \<Rightarrow> real \<Rightarrow> nat \<Rightarrow> real \<times> real" where
  "lonLatToWorldPx lon lat z =
     (let n = 2 ^ z;
          x = ((lon + 180) / 360) * n * 256;
          latRad = (clampLat lat * pi) / 180;
          y = ((1 - ln (tan latRad + 1 / cos latRad) / pi) / 2) * n * 256
      in (x, y))"

text \<open>The result of \<^verbatim>\<open>calc\<close>, the tile range of the bounding box at a zoom.\<close>

record TileCalc =
  pMin :: "real \<times> real"
  pMax :: "real \<times> real"
  x0 :: int
  y0 :: int
  x1 :: int
  y1 :: int
  tilesX :: int
  tilesY :: int

definition calc :: "BBox \<Rightarrow> nat \<Rightarrow> TileCalc" where
  "calc bbox zoom =
     (case bbox of (minLng, minLat, maxLng, maxLat) \<Rightarrow>
        let pMin = lonLatToWorldPx minLng maxLat zoom;
            pMax = lonLatToWorldPx maxLng minLat zoom;
            x0 = \<lfloor>fst pMin / 256\<rfloor>;
            y0 = \<lfloor>snd pMin / 256\<rfloor>;
            x1 = \<lfloor>fst pMax / 256\<rfloor>;
            y1 = \<lfloor>snd pMax / 256\<rfloor>;
            tilesX = x1 - x0 + 1;
            tilesY = y1 - y0 + 1
        in \<lparr>pMin = pMin, pMax = pMax, x0 = x0, y0 = y0, x1 = x1, y1 = y1,
            tilesX = tilesX, tilesY = tilesY\<rparr>)"

section \<open>Tile mosaic loader (loadBboxImageFromTiles)\<close>

definition maxTiles :: int where
  "maxTiles = 36"

text \<open>\<^verbatim>\<open>let z = Math.max(0, Math.min(24, Math.round(requestedZoom)))\<close>\<close>

definition initialZoom :: "real \<Rightarrow> nat" where
  "initialZoom requestedZoom = nat (max 0 (min 24 (js_round requestedZoom)))"

text \<open>
  The budget loop at the start of every attempt:
  \<^verbatim>\<open>while (z > 0 && c.tilesX * c.tilesY > maxTiles) { z -= 1; c = calc(z); }\<close>
  The function returns the zoom the loop ends with.
\<close>

fun reduceZoom :: "BBox \<Rightarrow> nat \<Rightarrow> nat" where
  "reduceZoom bbox 0 = 0"
| "reduceZoom bbox (Suc z) =
     (if tilesX (calc bbox (Suc z)) * tilesY (calc bbox (Suc z)) > maxTiles
      then reduceZoom bbox z else Suc z)"

text \<open>
  What the outside world answers. One tile request ends with a successful response, with
  a response that is not \<^verbatim>\<open>ok\<close>, or with an exception (a network error, the abort
  after 10 seconds, an image that does not decode). \<open>fetchTile env k z tx ty\<close> is the
  outcome of the request for tile \<open>(z, tx, ty)\<close> when \<open>k\<close> requests were issued before
  it. \<open>mosaicCtx\<close> and \<open>outCtx\<close> say whether \<^verbatim>\<open>getContext\<close> gives a context for the
  mosaic and the output canvas of an attempt.
\<close>

datatype fetch_outcome = TileOk | TileNotOk | TileThrew

record TileEnv =
  fetchTile :: "nat \<Rightarrow> nat \<Rightarrow> int \<Rightarrow> int \<Rightarrow> fetch_outcome"
  mosaicCtx :: "nat \<Rightarrow> bool"
  outCtx :: "nat \<Rightarrow> bool"

text \<open>
  The errors an attempt throws: no canvas context, a tile response that is not ok while
  missing tiles are not allowed (zoom, x, y of the tile), an exception of the request
  itself, and too many missing tiles (missing, total, zoom). \<open>NoError\<close> stands for
  \<^verbatim>\<open>lastErr\<close> still being \<^verbatim>\<open>null\<close> at the final \<^verbatim>\<open>throw\<close>.
\<close>

datatype load_error =
    CanvasNotAvailable
  | TileFetchFailed nat int int
  | TileFetchThrew nat int int
  | TooManyMissing nat int nat
  | NoError

text \<open>The tiles in the order of the two nested \<^verbatim>\<open>for\<close> loops: rows outside, columns inside.\<close>

definition tile_list :: "TileCalc \<Rightarrow> (int \<times> int) list" where
  "tile_list c = concat (map (\<lambda>ty. map (\<lambda>tx. (tx, ty)) [x0 c..x1 c]) [y0 c..y1 c])"

text \<open>
  The sequential fetch loop over the remaining tiles. \<open>k\<close> counts the requests issued
  so far, \<open>missing\<close> the tiles left transparent. The result is the error thrown or the
  final \<open>missing\<close>, with the new request count.
\<close>

fun fetch_tiles ::
  "TileEnv \<Rightarrow> bool \<Rightarrow> nat \<Rightarrow> (int \<times> int) list \<Rightarrow> nat \<Rightarrow> nat \<Rightarrow> (load_error + nat) \<times> nat" where
  "fetch_tiles env allowMissingTiles z [] k missing = (Inr missing, k)"
| "fetch_tiles env allowMissingTiles z ((tx, ty) # ts) k missing =
     (case fetchTile env k z tx ty of
        TileThrew \<Rightarrow> (Inl (TileFetchThrew z tx ty), Suc k)
      | TileOk \<Rightarrow> fetch_tiles env allowMissingTiles z ts (Suc k) missing
      | TileNotOk \<Rightarrow>
          if \<not> allowMissingTiles then (Inl (TileFetchFailed z tx ty), Suc k)
          else fetch_tiles env allowMissingTiles z ts (Suc k) (missing + 1))"

text \<open>What a successful attempt returns: the zoom used and the size of the output image.\<close>

record MosaicResult =
  usedZoom :: nat
  outW :: int
  outH :: int

text \<open>The body of the \<^verbatim>\<open>try\<close> block of attempt number \<open>attempt\<close> at zoom \<open>z\<close>.\<close>

definition run_attempt ::
  "TileEnv \<Rightarrow> bool \<Rightarrow> nat \<Rightarrow> nat \<Rightarrow> TileCalc \<Rightarrow> nat \<Rightarrow> (load_error + MosaicResult) \<times> nat" where
  "run_attempt env allowMissingTiles attempt z c k =
     (if \<not> mosaicCtx env attempt then (Inl CanvasNotAvailable, k)
      else
        let total = tilesX c * tilesY c in
        case fetch_tiles env allowMissingTiles z (tile_list c) k 0 of
          (Inl e, k') \<Rightarrow> (Inl e, k')
        | (Inr missing, k') \<Rightarrow>
            if allowMissingTiles \<and>
               (if total > 0 then real missing / real_of_int total else 1) \<ge> 0.7
            then (Inl (TooManyMissing missing total z), k')
            else
              let sw = fst (pMax c) - fst (pMin c);
                  sh = snd (pMax c) - snd (pMin c);
                  scale = min 1 (1024 / max sw 1);
                  w = max 1 \<lfloor>sw * scale\<rfloor>;
                  h = max 1 \<lfloor>sh * scale\<rfloor>
              in if \<not> outCtx env attempt then (Inl CanvasNotAvailable, k')
                 else (Inr \<lparr>usedZoom = z, outW = w, outH = h\<rparr>, k'))"

text \<open>
  A log of the attempts of one call, kept beside the program state to state what a call
  did: the zoom of the attempt, the number of tile requests it issued, and its error
  (\<open>None\<close> for the attempt that succeeded).
\<close>

record AttemptLog =
  at_zoom :: nat
  at_fetches :: nat
  at_error :: "load_error option"

text \<open>
  The attempt loop \<^verbatim>\<open>for (let attempt = 0; attempt < 6; attempt++)\<close> with \<open>r\<close>
  iterations left, and after it the final \<^verbatim>\<open>throw\<close> of the last error.
\<close>

fun attempt_loop ::
  "TileEnv \<Rightarrow> BBox \<Rightarrow> bool \<Rightarrow> nat \<Rightarrow> nat \<Rightarrow> nat \<Rightarrow> nat \<Rightarrow> load_error \<Rightarrow>
     (load_error + MosaicResult) \<times> AttemptLog list" where
  "attempt_loop env bbox allowMissingTiles 0 attempt z k lastErr = (Inl lastErr, [])"
| "attempt_loop env bbox allowMissingTiles (Suc r) attempt z k lastErr =
     (let z' = reduceZoom bbox z;
          c = calc bbox z'
      in case run_attempt env allowMissingTiles attempt z' c k of
           (Inr res, k') \<Rightarrow>
             (Inr res, [\<lparr>at_zoom = z', at_fetches = k' - k, at_error = None\<rparr>])
         | (Inl e, k') \<Rightarrow>
             let entry = \<lparr>at_zoom = z', at_fetches = k' - k, at_error = Some e\<rparr> in
             if z' > 0
             then (case attempt_loop env bbox allowMissingTiles r (Suc attempt) (z' - 1) k' e of
                     (res, entries) \<Rightarrow> (res, entry # entries))
             else (Inl e, [entry]))"

definition loadBboxImageFromTiles ::
  "TileEnv \<Rightarrow> BBox \<Rightarrow> real \<Rightarrow> bool \<Rightarrow> (load_error + MosaicResult) \<times> AttemptLog list" where
  "loadBboxImageFromTiles env bbox requestedZoom allowMissingTiles =
     attempt_loop env bbox allowMissingTiles 6 0 (initialZoom requestedZoom) 0 NoError"

text \<open>Two tile servers for the examples: one answers every request, one refuses every request.\<close>

definition server_up :: TileEnv where
  "server_up = \<lparr>fetchTile = (\<lambda>k z tx ty. TileOk), mosaicCtx = (\<lambda>a. True), outCtx = (\<lambda>a. True)\<rparr>"

definition server_down :: TileEnv where
  "server_down = \<lparr>fetchTile = (\<lambda>k z tx ty. TileNotOk), mosaicCtx = (\<lambda>a. True), outCtx = (\<lambda>a. True)\<rparr>"

text \<open>Example boxes: one degree square at the equator, and a box forty worlds wide.\<close>

definition unit_box :: BBox where
  "unit_box = (0, 0, 1, 1)"

definition wide_box :: BBox where
  "wide_box = (- 7020, 0, 7380, 1)"

section \<open>JavaScript values the code tests\<close>

text \<open>
  A \<^verbatim>\<open>number\<close> where the code asks \<^verbatim>\<open>Number.isFinite\<close>, and a value of unknown
  type where it asks \<^verbatim>\<open>typeof v === "number"\<close>. An absent property is \<open>None\<close>.
\<close>

datatype jsnum = Finite real | NaN | PosInfinity | NegInfinity

datatype jsval = Num jsnum | NotNum

text \<open>\<^verbatim>\<open>typeof v === "number" && Number.isFinite(v)\<close>, giving the number.\<close>

fun finiteNumber :: "jsval option \<Rightarrow> real option" where
  "finiteNumber (Some (Num (Finite v))) = Some v"
| "finiteNumber _ = None"

text \<open>\<^verbatim>\<open>a < b\<close> for a finite \<open>a\<close>: false when \<open>b\<close> is \<^verbatim>\<open>NaN\<close>.\<close>

fun js_less :: "real \<Rightarrow> jsnum \<Rightarrow> bool" where
  "js_less a (Finite b) = (a < b)"
| "js_less a PosInfinity = True"
| "js_less a NegInfinity = False"
| "js_less a NaN = False"

text \<open>
  \<^verbatim>\<open>Array.prototype.sort\<close> with a comparator: the sort is stable, and for a comparator
  that is a consistent ordering the result is the ascending order. It is modelled as a
  stable insertion sort that reads the sign of the comparator.
\<close>

fun insort_cmp :: "('a \<Rightarrow> 'a \<Rightarrow> real) \<Rightarrow> 'a \<Rightarrow> 'a list \<Rightarrow> 'a list" where
  "insort_cmp cmp v [] = [v]"
| "insort_cmp cmp v (u # us) = (if cmp v u \<le> 0 then v # u # us else u # insort_cmp cmp v us)"

definition sort_cmp :: "('a \<Rightarrow> 'a \<Rightarrow> real) \<Rightarrow> 'a list \<Rightarrow> 'a list" where
  "sort_cmp cmp vs = foldr (insort_cmp cmp) vs []"

section \<open>Candidate selector (pickClosest, pickClearest)\<close>

text \<open>
  A catalogue item with the two properties the selector reads. \<open>parse\<close>, a parameter of
  the functions below, is the platform's \<^verbatim>\<open>new Date(s).getTime()\<close>: the time in
  milliseconds, or \<^verbatim>\<open>NaN\<close> for a string that is not a date.
\<close>

record StacFeature =
  id_f :: string
  datetime :: "string option"
  eo_cloud_cover :: "jsval option"

definition datetimeMs :: "(string \<Rightarrow> jsnum) \<Rightarrow> StacFeature \<Rightarrow> real option" where
  "datetimeMs parse f =
     (case datetime f of
        None \<Rightarrow> None
      | Some dt \<Rightarrow> if dt = [] then None
                   else (case parse dt of Finite ms \<Rightarrow> Some ms | _ \<Rightarrow> None))"



text \<open>The loop of \<^verbatim>\<open>pickClosest\<close> over the remaining items, with \<open>best\<close> and \<open>bestDist\<close>.\<close>

fun closest_loop ::
  "(string \<Rightarrow> jsnum) \<Rightarrow> real \<Rightarrow> StacFeature list \<Rightarrow> StacFeature option \<Rightarrow> jsnum \<Rightarrow>
     StacFeature option" where
  "closest_loop parse targetMs [] best bestDist = best"
| "closest_loop parse targetMs (f # fs) best bestDist =
     (case datetimeMs parse f of
        None \<Rightarrow> closest_loop parse targetMs fs best bestDist
      | Some ms \<Rightarrow>
          let dist = \<bar>ms - targetMs\<bar> in
          if js_less dist bestDist
          then closest_loop parse targetMs fs (Some f) (Finite dist)
          else closest_loop parse targetMs fs best bestDist)"

definition pickClosest :: "(string \<Rightarrow> jsnum) \<Rightarrow> StacFeature list \<Rightarrow> real \<Rightarrow> StacFeature option" where
  "pickClosest parse features targetMs = closest_loop parse targetMs features None PosInfinity"





text \<open>
  The three items of the spec's example, with the times the platform gives for their
  dates (midnight UTC, in milliseconds since 1970), and the target date 2024-01-03.
\<close>

definition example_parse :: "string \<Rightarrow> jsnum" where
  "example_parse s =
     (if s = ''2024-01-01T00:00:00Z'' then Finite 1704067200000
      else if s = ''2024-01-05T00:00:00Z'' then Finite 1704412800000
      else if s = ''2024-01-10T00:00:00Z'' then Finite 1704844800000
      else NaN)"

definition item_jan01 :: StacFeature where
  "item_jan01 = \<lparr>id_f = ''jan01'', datetime = Some ''2024-01-01T00:00:00Z'',
                 eo_cloud_cover = Some (Num (Finite 80))\<rparr>"

definition item_jan05 :: StacFeature where
  "item_jan05 = \<lparr>id_f = ''jan05'', datetime = Some ''2024-01-05T00:00:00Z'',
                 eo_cloud_cover = Some (Num (Finite 5))\<rparr>"

definition item_jan10 :: StacFeature where
  "item_jan10 = \<lparr>id_f = ''jan10'', datetime = Some ''2024-01-10T00:00:00Z'',
                 eo_cloud_cover = Some (Num (Finite 50))\<rparr>"

definition target_jan03 :: real where
  "target_jan03 = 1704240000000"

section \<open>Snapshot deduplicator (the Wayback options route)\<close>

record WaybackOption =
  id_v :: int
  date :: string
  title :: string
  tileUrlTemplate :: string

text \<open>
  The outside world of one request. \<open>probeTileHash env v a\<close> is what attempt \<open>a\<close> of
  probing the tile of version \<open>v\<close> returns: the hash of the tile bytes, or
  \<^verbatim>\<open>null\<close>. \<open>now env k\<close> is the value of call number \<open>k\<close> of \<^verbatim>\<open>Date.now()\<close>.
\<close>

record ProbeEnv =
  probeTileHash :: "int \<Rightarrow> nat \<Rightarrow> string option"
  now :: "nat \<Rightarrow> int"

text \<open>A hash that is \<^verbatim>\<open>null\<close> or the empty string is falsy.\<close>

fun truthy :: "string option \<Rightarrow> string option" where
  "truthy None = None"
| "truthy (Some h) = (if h = [] then None else Some h)"



definition maxProbeMs :: int where
  "maxProbeMs = 30000"

definition maxProbes :: nat where
  "maxProbes = 180"


text \<open>The variables of the probe loop; \<open>clock\<close> counts the calls of \<^verbatim>\<open>Date.now()\<close>.\<close>

record ProbeState =
  available :: "WaybackOption list"
  seen :: "string set"
  deduped :: nat
  failed :: nat
  probed :: nat
  clock :: nat

text \<open>
  The two checks at the end of the inner loop body:
  \<^verbatim>\<open>if (probed >= maxProbes) break; if (Date.now() - startedAt > maxProbeMs) break;\<close>
  The result says whether the loop breaks, with the state after the checks.
\<close>

definition end_checks :: "ProbeEnv \<Rightarrow> int \<Rightarrow> ProbeState \<Rightarrow> bool \<times> ProbeState" where
  "end_checks env startedAt st =
     (if probed st \<ge> maxProbes then (True, st)
      else let t = now env (clock st);
               st' = st\<lparr>clock := clock st + 1\<rparr>
           in (t - startedAt > maxProbeMs, st'))"

text \<open>The inner loop \<^verbatim>\<open>for (const r of results)\<close> over the remaining results of a batch.\<close>

fun process_results ::
  "ProbeEnv \<Rightarrow> nat \<Rightarrow> int \<Rightarrow> (WaybackOption \<times> string option) list \<Rightarrow> ProbeState \<Rightarrow> ProbeState" where
  "process_results env limit startedAt [] st = st"
| "process_results env limit startedAt ((v, hash) # rs) st =
     (if length (available st) \<ge> limit then st
      else
        let st1 = st\<lparr>probed := probed st + 1\<rparr> in
        case truthy hash of
          Some h \<Rightarrow>
            if h \<in> seen st1
            then process_results env limit startedAt rs (st1\<lparr>deduped := deduped st1 + 1\<rparr>)
            else (case end_checks env startedAt
                         (st1\<lparr>seen := insert h (seen st1), available := available st1 @ [v]\<rparr>) of
                    (stop, st2) \<Rightarrow>
                      if stop then st2 else process_results env limit startedAt rs st2)
        | None \<Rightarrow>
            (case end_checks env startedAt (st1\<lparr>failed := failed st1 + 1\<rparr>) of
               (stop, st2) \<Rightarrow>
                 if stop then st2 else process_results env limit startedAt rs st2))"












section \<open>Request parameters of the Wayback options route\<close>

record Body =
  bbox :: BBox
  zoom :: "jsval option"
  limit :: "jsval option"

text \<open>
  \<^verbatim>\<open>typeof body.zoom === "number" && Number.isFinite(body.zoom) ?
       Math.min(Math.max(Math.round(body.zoom), 0), 23) : 16\<close>
\<close>

definition requestZoom :: "Body \<Rightarrow> int" where
  "requestZoom body =
     (case finiteNumber (zoom body) of
        Some v \<Rightarrow> min (max (js_round v) 0) 23
      | None \<Rightarrow> 16)"

definition requestLimit :: "Body \<Rightarrow> int" where
  "requestLimit body =
     (case finiteNumber (limit body) of
        Some v \<Rightarrow> min (max (js_round v) 5) 120
      | None \<Rightarrow> 60)"

text \<open>\<^verbatim>\<open>centerOfBbox\<close> and \<^verbatim>\<open>lonLatToTile\<close>: the tile \<open>(x, y, z)\<close> that is probed.\<close>

definition centerOfBbox :: "BBox \<Rightarrow> real \<times> real" where
  "centerOfBbox b = (case b of (b0, b1, b2, b3) \<Rightarrow> ((b0 + b2) / 2, (b1 + b3) / 2))"

definition lonLatToTile :: "real \<Rightarrow> real \<Rightarrow> int \<Rightarrow> int \<times> int \<times> int" where
  "lonLatToTile lon lat z =
     (let n = 2 powr (real_of_int z);
          x = \<lfloor>((lon + 180) / 360) * n\<rfloor>;
          latRad = (clampLat lat * pi) / 180;
          y = \<lfloor>((1 - ln (tan latRad + 1 / cos latRad) / pi) / 2) * n\<rfloor>
      in (x, y, z))"

definition probeTile :: "Body \<Rightarrow> int \<times> int \<times> int" where
  "probeTile body =
     (case centerOfBbox (bbox body) of (lon, lat) \<Rightarrow> lonLatToTile lon lat (requestZoom body))"

text \<open>The zoom in the URL of every probe of a request: \<^verbatim>\<open>tile.z\<close>.\<close>

definition probeZoom :: "Body \<Rightarrow> int" where
  "probeZoom body = (case probeTile body of (x, y, z) \<Rightarrow> z)"

text \<open>Clamping as the words say it: a value below the range gives its lower end, a value above it the upper end.\<close>

definition clamp_to :: "int \<Rightarrow> int \<Rightarrow> int \<Rightarrow> int" where
  "clamp_to lo hi v = (if v < lo then lo else if v > hi then hi else v)"

section \<open>The selection rules in the words of the spec\<close>

text \<open>
  Closest: the item has a datetime, and its distance to the target is minimal among the
  items of the list that have one.
\<close>

definition closest_in :: "(string \<Rightarrow> jsnum) \<Rightarrow> real \<Rightarrow> StacFeature list \<Rightarrow> StacFeature \<Rightarrow> bool" where
  "closest_in parse targetMs fs f =
     (case datetimeMs parse f of
        None \<Rightarrow> False
      | Some ms \<Rightarrow>
          (\<forall>g\<in>set fs. case datetimeMs parse g of
                         None \<Rightarrow> True
                       | Some ms' \<Rightarrow> \<bar>ms - targetMs\<bar> \<le> \<bar>ms' - targetMs\<bar>))"








text \<open>The hashes that a list of results adds to the set of seen hashes.\<close>

definition hashes_of :: "(WaybackOption \<times> string option) list \<Rightarrow> string set" where
  "hashes_of rs = {h. \<exists>v hash. (v, hash) \<in> set rs \<and> truthy hash = Some h}"

text \<open>
  The budget in the words of the spec, for one attempt of the log: the tile range at the
  zoom of the attempt has at most \<open>maxTiles\<close> tiles, and the attempt issued at most
  \<open>maxTiles\<close> tile requests.
\<close>

definition within_budget :: "BBox \<Rightarrow> AttemptLog \<Rightarrow> bool" where
  "within_budget box a =
     (tilesX (calc box (at_zoom a)) * tilesY (calc box (at_zoom a)) \<le> maxTiles \<and>
      int (at_fetches a) \<le> maxTiles)"

section \<open>Properties of the pixel diff engine\<close>

text \<open>The three counters after the loop, as functions of the pixels.\<close>

lemma fold_considered:
  "considered (fold (diff_pixel t ic idk ad bd) xs acc) =
     considered acc + length (filter (\<lambda>i. \<not> masked ic idk ad bd i) xs)"
  by (induction xs arbitrary: acc) (simp_all add: diff_pixel_def Let_def)

lemma fold_changed:
  "changed (fold (diff_pixel t ic idk ad bd) xs acc) =
     changed acc + length (filter (\<lambda>i. \<not> masked ic idk ad bd i \<and> pixel_d ad bd i \<ge> t) xs)"
  by (induction xs arbitrary: acc) (simp_all add: diff_pixel_def Let_def)

lemma fold_acc_sum:
  "acc_sum (fold (diff_pixel t ic idk ad bd) xs acc) =
     acc_sum acc + sum_list (map (pixel_d ad bd) (filter (\<lambda>i. \<not> masked ic idk ad bd i) xs))"
  by (induction xs arbitrary: acc) (simp_all add: diff_pixel_def Let_def)

lemma loop_considered:
  "considered (diff_loop t ic idk ad bd n) =
     length (filter (\<lambda>i. \<not> masked ic idk ad bd i) [0..<n])"
  by (simp add: diff_loop_def fold_considered)

lemma loop_changed:
  "changed (diff_loop t ic idk ad bd n) =
     length (filter (\<lambda>i. \<not> masked ic idk ad bd i \<and> pixel_d ad bd i \<ge> t) [0..<n])"
  by (simp add: diff_loop_def fold_changed)

lemma loop_acc_sum:
  "acc_sum (diff_loop t ic idk ad bd n) =
     sum_list (map (pixel_d ad bd) (filter (\<lambda>i. \<not> masked ic idk ad bd i) [0..<n]))"
  by (simp add: diff_loop_def fold_acc_sum)

lemma loop_considered_zero_iff:
  "considered (diff_loop t ic idk ad bd n) = 0 \<longleftrightarrow> (\<forall>i<n. masked ic idk ad bd i)"
  by (auto simp: loop_considered filter_empty_conv)

lemma loop_considered_card:
  "considered (diff_loop t ic idk ad bd n) = card {i. i < n \<and> \<not> masked ic idk ad bd i}"
proof -
  let ?xs = "filter (\<lambda>i. \<not> masked ic idk ad bd i) [0..<n]"
  have "distinct ?xs" by simp
  then have "card (set ?xs) = length ?xs" by (rule distinct_card)
  moreover have "set ?xs = {i. i < n \<and> \<not> masked ic idk ad bd i}" by auto
  ultimately have "length ?xs = card {i. i < n \<and> \<not> masked ic idk ad bd i}" by metis
  then show ?thesis by (simp only: loop_considered)
qed

lemma pixel_d_same: "pixel_d ad ad i = 0"
  by (simp add: pixel_d_def)

lemma sum_list_map_zero: "(\<And>v. f v = (0::real)) \<Longrightarrow> sum_list (map f xs) = 0"
  by (induction xs) simp_all

lemma loop_same_sum: "acc_sum (diff_loop t ic idk ad ad n) = 0"
  by (simp add: loop_acc_sum pixel_d_same sum_list_map_zero)

lemma loop_same_changed: "0 < t \<Longrightarrow> changed (diff_loop t ic idk ad ad n) = 0"
  by (simp add: loop_changed pixel_d_same)

lemma loop_changed_mono:
  "t1 \<le> t2 \<Longrightarrow> changed (diff_loop t2 ic idk ad bd n) \<le> changed (diff_loop t1 ic idk ad bd n)"
  unfolding loop_changed by (induction n) auto

lemma loop_considered_threshold:
  "considered (diff_loop t1 ic idk ad bd n) = considered (diff_loop t2 ic idk ad bd n)"
  by (simp add: loop_considered)

lemma white_masked:
  assumes "i < w * h"
  shows "masked True idk (replicate (4 * w * h) 255) (replicate (4 * w * h) 255) i"
proof -
  have c: "chan (replicate (4 * w * h) 255) k = 255" if "k \<le> i * 4 + 2" for k
  proof -
    from that assms have "k < 4 * w * h" by simp
    then show ?thesis by (simp add: chan_def)
  qed
  have "isCloudLike 255 255 255"
    by (simp add: isCloudLike_def luma_def saturation_def)
  then show ?thesis
    by (simp add: masked_def Let_def c)
qed

text \<open>
  Claim C1, as amended. On two identical buffers with a threshold above 0 the diff
  returns statistics with \<open>meanDiff = 0\<close> and \<open>changedPercent = 0\<close> whenever at least one
  pixel is left unmasked; when every pixel is masked it throws the all-pixels-masked
  error instead.
\<close>

theorem computeDiff_identical:
  assumes "0 < threshold"
  shows "((\<exists>i < width a * height a. \<not> masked ignoreClouds ignoreDark (data a) (data a) i) \<longrightarrow>
           (\<exists>hm st. computeDiff a a threshold ignoreClouds ignoreDark = Inr (hm, st) \<and>
                     meanDiff st = 0 \<and> changedPercent st = 0)) \<and>
         ((\<forall>i < width a * height a. masked ignoreClouds ignoreDark (data a) (data a) i) \<longrightarrow>
           computeDiff a a threshold ignoreClouds ignoreDark = Inl AllPixelsMasked)"
  using assms
  by (auto simp: computeDiff_def Let_def loop_considered_zero_iff loop_same_sum loop_same_changed)

theorem computeDiff_identical_witness:
  "(0::real) < 20 \<and>
   \<not> masked False False (data gray_pixel) (data gray_pixel) 0 \<and>
   (\<exists>hm st. computeDiff gray_pixel gray_pixel 20 False False = Inr (hm, st) \<and>
             meanDiff st = 0 \<and> changedPercent st = 0) \<and>
   masked False True (data black_pixel) (data black_pixel) 0 \<and>
   computeDiff black_pixel black_pixel 20 False True = Inl AllPixelsMasked"
proof -
  have g: "\<not> masked False False (data gray_pixel) (data gray_pixel) 0"
    by (simp add: masked_def)
  have b: "masked False True (data black_pixel) (data black_pixel) 0"
    by (simp add: masked_def black_pixel_def chan_def isVeryDark_def luma_def)
  have wg: "width gray_pixel * height gray_pixel = 1"
    by (simp add: gray_pixel_def)
  have wb: "width black_pixel * height black_pixel = 1"
    by (simp add: black_pixel_def)
  from computeDiff_identical [of 20 gray_pixel False False] g wg
  have 1: "\<exists>hm st. computeDiff gray_pixel gray_pixel 20 False False = Inr (hm, st) \<and>
             meanDiff st = 0 \<and> changedPercent st = 0"
    by auto
  from computeDiff_identical [of 20 black_pixel False True] b wb
  have 2: "computeDiff black_pixel black_pixel 20 False True = Inl AllPixelsMasked"
    by auto
  from g b 1 2 show ?thesis by simp
qed

text \<open>
  Claim C1 as stated fails: two identical one-pixel black buffers with the dark mask on
  and threshold 1 give the all-pixels-masked error, not statistics.
\<close>

theorem computeDiff_identical_counterexample:
  "(0::real) < 1 \<and> computeDiff black_pixel black_pixel 1 False True = Inl AllPixelsMasked"
  by (simp add: computeDiff_def black_pixel_def diff_loop_def diff_pixel_def masked_def
      chan_def luma_def isVeryDark_def Let_def)

text \<open>
  Claim C2. For fixed buffers and masking options, raising the threshold never raises
  \<open>changedPercent\<close>: if the diff at the lower threshold throws, so does the diff at the
  higher one, and if it returns statistics, so does the other, with a \<open>changedPercent\<close>
  that is not larger.
\<close>

theorem computeDiff_threshold_mono:
  assumes "t1 \<le> t2"
  shows "case computeDiff a b t1 ignoreClouds ignoreDark of
           Inl e \<Rightarrow> computeDiff a b t2 ignoreClouds ignoreDark = Inl e
         | Inr (hm1, s1) \<Rightarrow>
             (\<exists>hm2 s2. computeDiff a b t2 ignoreClouds ignoreDark = Inr (hm2, s2) \<and>
                        changedPercent s2 \<le> changedPercent s1)"
proof -
  let ?n = "min (width a) (width b) * min (height a) (height b)"
  let ?c = "\<lambda>t. considered (diff_loop t ignoreClouds ignoreDark (data a) (data b) ?n)"
  have same: "?c t2 = ?c t1"
    by (rule loop_considered_threshold)
  have le: "changed (diff_loop t2 ignoreClouds ignoreDark (data a) (data b) ?n)
            \<le> changed (diff_loop t1 ignoreClouds ignoreDark (data a) (data b) ?n)"
    by (rule loop_changed_mono [OF assms])
  show ?thesis
  proof (cases "?c t1 = 0")
    case True
    then show ?thesis using same by (simp add: computeDiff_def Let_def)
  next
    case False
    then have pos: "0 < real (?c t1)" by simp
    from le pos have
      "real (changed (diff_loop t2 ignoreClouds ignoreDark (data a) (data b) ?n)) / real (?c t1) * 100
       \<le> real (changed (diff_loop t1 ignoreClouds ignoreDark (data a) (data b) ?n)) / real (?c t1) * 100"
      by (simp add: divide_right_mono)
    with False same show ?thesis
      by (simp add: computeDiff_def Let_def)
  qed
qed

theorem computeDiff_threshold_mono_witness:
  "(20::real) \<le> 30 \<and>
   (\<exists>hm1 s1 hm2 s2.
      computeDiff before_pixel after_pixel 20 False False = Inr (hm1, s1) \<and>
      computeDiff before_pixel after_pixel 30 False False = Inr (hm2, s2) \<and>
      changedPercent s1 = 100 \<and> changedPercent s2 \<le> changedPercent s1)"
proof -
  have e: "\<exists>hm1 s1. computeDiff before_pixel after_pixel 20 False False = Inr (hm1, s1) \<and>
             changedPercent s1 = 100"
    by (simp add: computeDiff_def before_pixel_def after_pixel_def diff_loop_def diff_pixel_def
        masked_def chan_def pixel_d_def Let_def)
  then obtain hm1 s1 where
    1: "computeDiff before_pixel after_pixel 20 False False = Inr (hm1, s1)"
    and p: "changedPercent s1 = 100"
    by blast
  have "(20::real) \<le> 30" by simp
  from computeDiff_threshold_mono [OF this, of before_pixel after_pixel False False] 1
  obtain hm2 s2 where
    "computeDiff before_pixel after_pixel 30 False False = Inr (hm2, s2)"
    "changedPercent s2 \<le> changedPercent s1"
    by auto
  with 1 p show ?thesis by auto
qed

text \<open>
  Claim C3. The diff throws the all-pixels-masked error exactly when \<open>considered\<close> is 0
  after the loop, and \<open>considered\<close> is the number of pixels of the working area that the
  masking branch did not skip. On two all-white buffers of any size, with the cloud mask
  on, every pixel is cloud-like and the diff throws that error.
\<close>

theorem computeDiff_all_masked:
  "(computeDiff a b t ignoreClouds ignoreDark = Inl AllPixelsMasked) =
     (considered (diff_loop t ignoreClouds ignoreDark (data a) (data b)
        (min (width a) (width b) * min (height a) (height b))) = 0) \<and>
   considered (diff_loop t ignoreClouds ignoreDark (data a) (data b)
        (min (width a) (width b) * min (height a) (height b))) =
     card {i. i < min (width a) (width b) * min (height a) (height b) \<and>
              \<not> masked ignoreClouds ignoreDark (data a) (data b) i} \<and>
   luma 255 255 255 = 255 \<and> saturation 255 255 255 = 0 \<and> isCloudLike 255 255 255 \<and>
   computeDiff (white_image w h) (white_image w h) t True ignoreDark = Inl AllPixelsMasked"
proof -
  have 1: "(computeDiff a b t ignoreClouds ignoreDark = Inl AllPixelsMasked) =
     (considered (diff_loop t ignoreClouds ignoreDark (data a) (data b)
        (min (width a) (width b) * min (height a) (height b))) = 0)"
    by (simp add: computeDiff_def Let_def)
  have 2: "luma 255 255 255 = 255" "saturation 255 255 255 = 0" "isCloudLike 255 255 255"
    by (simp_all add: isCloudLike_def luma_def saturation_def)
  have "considered (diff_loop t True ignoreDark (replicate (4 * w * h) 255)
          (replicate (4 * w * h) 255) (w * h)) = 0"
    unfolding loop_considered_zero_iff using white_masked by blast
  then have 3: "computeDiff (white_image w h) (white_image w h) t True ignoreDark
                = Inl AllPixelsMasked"
    by (simp add: computeDiff_def white_image_def Let_def)
  from 1 2 3 loop_considered_card show ?thesis by simp
qed

section \<open>Properties of the request parameters\<close>

lemma clamp_to_min_max: "lo \<le> hi \<Longrightarrow> min (max v lo) hi = clamp_to lo hi v"
  by (simp add: clamp_to_def)

lemma finiteNumber_None_iff: "(finiteNumber j = None) = (\<nexists>v. j = Some (Num (Finite v)))"
  by (cases j rule: finiteNumber.cases) simp_all

lemma probeZoom_requestZoom: "probeZoom body = requestZoom body"
  by (simp add: probeZoom_def probeTile_def lonLatToTile_def Let_def centerOfBbox_def
      split: prod.splits)

text \<open>
  Claim C10. The zoom of a timeline request is \<open>16\<close> when the parameter is absent, not a
  number or not finite, and otherwise its rounded value clamped to \<open>0..23\<close>; the limit is
  \<open>60\<close> or the rounded value clamped to \<open>5..120\<close>. Every probe of the request is issued
  at that zoom, so never at zoom 24.
\<close>

theorem request_zoom_limit_clamped:
  "requestZoom body =
     (case finiteNumber (zoom body) of Some v \<Rightarrow> clamp_to 0 23 (js_round v) | None \<Rightarrow> 16) \<and>
   requestLimit body =
     (case finiteNumber (limit body) of Some v \<Rightarrow> clamp_to 5 120 (js_round v) | None \<Rightarrow> 60) \<and>
   (finiteNumber (zoom body) = None) = (\<nexists>v. zoom body = Some (Num (Finite v))) \<and>
   (finiteNumber (limit body) = None) = (\<nexists>v. limit body = Some (Num (Finite v))) \<and>
   0 \<le> requestZoom body \<and> requestZoom body \<le> 23 \<and>
   5 \<le> requestLimit body \<and> requestLimit body \<le> 120 \<and>
   probeZoom body = requestZoom body \<and> probeZoom body \<noteq> 24"
proof -
  have z: "requestZoom body =
     (case finiteNumber (zoom body) of Some v \<Rightarrow> clamp_to 0 23 (js_round v) | None \<Rightarrow> 16)"
    by (simp add: requestZoom_def clamp_to_min_max split: option.splits)
  have l: "requestLimit body =
     (case finiteNumber (limit body) of Some v \<Rightarrow> clamp_to 5 120 (js_round v) | None \<Rightarrow> 60)"
    by (simp add: requestLimit_def clamp_to_min_max split: option.splits)
  have zb: "0 \<le> requestZoom body \<and> requestZoom body \<le> 23"
    by (simp add: requestZoom_def split: option.splits)
  have lb: "5 \<le> requestLimit body \<and> requestLimit body \<le> 120"
    by (simp add: requestLimit_def split: option.splits)
  from zb have "probeZoom body \<noteq> 24"
    by (simp add: probeZoom_requestZoom)
  with z l zb lb show ?thesis
    by (simp only: finiteNumber_None_iff probeZoom_requestZoom simp_thms)
qed

section \<open>Properties of the candidate selector\<close>

lemma closest_in_undated: "datetimeMs parse f = None \<Longrightarrow> \<not> closest_in parse t fs f"
  by (simp add: closest_in_def)

lemma closest_in_Cons_undated:
  "datetimeMs parse f = None \<Longrightarrow> closest_in parse t (f # fs) g = closest_in parse t fs g"
  by (simp add: closest_in_def split: option.splits)

lemma closest_in_Cons_dated:
  "datetimeMs parse f = Some ms \<Longrightarrow>
   closest_in parse t (f # fs) g =
     (closest_in parse t fs g \<and>
      (case datetimeMs parse g of None \<Rightarrow> False | Some ms' \<Rightarrow> \<bar>ms' - t\<bar> \<le> \<bar>ms - t\<bar>))"
  by (auto simp: closest_in_def split: option.splits)

lemma find_closest_skip:
  assumes f: "datetimeMs parse f = Some ms"
    and g0: "g0 \<in> set fs" "datetimeMs parse g0 = Some ms0" "\<bar>ms0 - t\<bar> < \<bar>ms - t\<bar>"
  shows "find (closest_in parse t (f # fs)) (f # fs) = find (closest_in parse t fs) fs"
proof -
  have nf: "\<not> closest_in parse t (f # fs) f"
    using f g0 by (auto simp: closest_in_def split: option.splits)
  have eq: "closest_in parse t (f # fs) g = closest_in parse t fs g" if "g \<in> set fs" for g
  proof (cases "closest_in parse t fs g")
    case False
    then show ?thesis by (simp add: closest_in_Cons_dated [OF f])
  next
    case True
    then obtain msg where mg: "datetimeMs parse g = Some msg"
      by (auto simp: closest_in_def split: option.splits)
    with True g0 have "\<bar>msg - t\<bar> \<le> \<bar>ms0 - t\<bar>"
      by (auto simp: closest_in_def split: option.splits)
    with g0 have "\<bar>msg - t\<bar> \<le> \<bar>ms - t\<bar>" by simp
    with True mg show ?thesis by (simp add: closest_in_Cons_dated [OF f])
  qed
  have "find (closest_in parse t (f # fs)) (f # fs) = find (closest_in parse t (f # fs)) fs"
    using nf by simp
  also have "\<dots> = find (closest_in parse t fs) fs"
    by (rule find_cong) (simp_all add: eq)
  finally show ?thesis .
qed

lemma js_less_between: "js_less a bd \<Longrightarrow> \<not> js_less b bd \<Longrightarrow> a < b"
  by (cases bd) simp_all

lemma closest_loop_first_min:
  "closest_loop parse t fs best bd =
     (if \<exists>f\<in>set fs. case datetimeMs parse f of None \<Rightarrow> False
                                               | Some ms \<Rightarrow> js_less \<bar>ms - t\<bar> bd
      then find (closest_in parse t fs) fs
      else best)"
proof (induction fs arbitrary: best bd)
  case Nil
  then show ?case by simp
next
  case (Cons f fs)
  show ?case
  proof (cases "datetimeMs parse f")
    case None
    have "find (closest_in parse t (f # fs)) (f # fs) = find (closest_in parse t fs) fs"
      using closest_in_undated [OF None] closest_in_Cons_undated [OF None]
      by (simp cong: find_cong)
    with None show ?thesis
      by (simp add: Cons.IH)
  next
    case (Some ms)
    show ?thesis
    proof (cases "js_less \<bar>ms - t\<bar> bd")
      case True
      show ?thesis
      proof (cases "\<exists>g\<in>set fs. case datetimeMs parse g of None \<Rightarrow> False
                       | Some ms' \<Rightarrow> js_less \<bar>ms' - t\<bar> (Finite \<bar>ms - t\<bar>)")
        case True
        then obtain g0 ms0 where g0: "g0 \<in> set fs" "datetimeMs parse g0 = Some ms0"
          "\<bar>ms0 - t\<bar> < \<bar>ms - t\<bar>"
          by (auto split: option.splits)
        from find_closest_skip [OF Some g0] True Some \<open>js_less \<bar>ms - t\<bar> bd\<close>
        show ?thesis by (simp add: Cons.IH)
      next
        case False
        then have "closest_in parse t (f # fs) f"
          using Some by (auto simp: closest_in_def split: option.splits)
        with False Some \<open>js_less \<bar>ms - t\<bar> bd\<close> show ?thesis
          by (simp add: Cons.IH)
      qed
    next
      case False
      show ?thesis
      proof (cases "\<exists>g\<in>set fs. case datetimeMs parse g of None \<Rightarrow> False
                       | Some ms' \<Rightarrow> js_less \<bar>ms' - t\<bar> bd")
        case True
        then obtain g0 ms0 where g0: "g0 \<in> set fs" "datetimeMs parse g0 = Some ms0"
          and l: "js_less \<bar>ms0 - t\<bar> bd"
          by (auto split: option.splits)
        from js_less_between [OF l False] have "\<bar>ms0 - t\<bar> < \<bar>ms - t\<bar>" .
        from find_closest_skip [OF Some g0 this] True Some False
        show ?thesis by (simp add: Cons.IH)
      next
        case F2: False
        with False Some show ?thesis
          by (simp add: Cons.IH)
      qed
    qed
  qed
qed

lemma find_closest_none:
  "\<forall>f\<in>set fs. datetimeMs parse f = None \<Longrightarrow> find (closest_in parse t fs) fs = None"
  by (simp add: find_None_iff closest_in_undated)

text \<open>
  Claim C6. \<open>pickClosest\<close> returns the first item of the list, in list order, that has a
  datetime and whose distance to the target is minimal among the items that have one
  (\<open>None\<close> when no item has a datetime). On the three items of the example with target
  2024-01-03 that is the item of 2024-01-01, which ties with the item of 2024-01-05.
\<close>

theorem pickClosest_first_minimum:
  "pickClosest parse features targetMs = find (closest_in parse targetMs features) features \<and>
   pickClosest example_parse [item_jan01, item_jan05, item_jan10] target_jan03 = Some item_jan01"
proof -
  have 1: "pickClosest parse features targetMs
           = find (closest_in parse targetMs features) features"
  proof (cases "\<forall>f\<in>set features. datetimeMs parse f = None")
    case True
    then show ?thesis
      by (simp add: pickClosest_def closest_loop_first_min find_closest_none)
  next
    case False
    then show ?thesis
      by (auto simp: pickClosest_def closest_loop_first_min)
  qed
  have 2: "pickClosest example_parse [item_jan01, item_jan05, item_jan10] target_jan03
           = Some item_jan01"
    by (simp add: pickClosest_def datetimeMs_def example_parse_def item_jan01_def
        item_jan05_def item_jan10_def target_jan03_def)
  from 1 2 show ?thesis by simp
qed

theorem pickClosest_first_minimum_witness:
  "find (closest_in example_parse target_jan03 [item_jan01, item_jan05, item_jan10])
     [item_jan01, item_jan05, item_jan10] = Some item_jan01 \<and>
   closest_in example_parse target_jan03 [item_jan01, item_jan05, item_jan10] item_jan01 \<and>
   closest_in example_parse target_jan03 [item_jan01, item_jan05, item_jan10] item_jan05 \<and>
   \<not> closest_in example_parse target_jan03 [item_jan01, item_jan05, item_jan10] item_jan10"
proof -
  note th = pickClosest_first_minimum
         [of example_parse "[item_jan01, item_jan05, item_jan10]" target_jan03]
  have "find (closest_in example_parse target_jan03 [item_jan01, item_jan05, item_jan10])
     [item_jan01, item_jan05, item_jan10] = Some item_jan01"
    by (rule trans [OF th [THEN conjunct1, symmetric] th [THEN conjunct2]])
  moreover have
    "closest_in example_parse target_jan03 [item_jan01, item_jan05, item_jan10] item_jan01"
    "closest_in example_parse target_jan03 [item_jan01, item_jan05, item_jan10] item_jan05"
    "\<not> closest_in example_parse target_jan03 [item_jan01, item_jan05, item_jan10] item_jan10"
    by (simp_all add: closest_in_def datetimeMs_def example_parse_def item_jan01_def
        item_jan05_def item_jan10_def target_jan03_def)
  ultimately show ?thesis by (simp only: simp_thms)
qed

section \<open>Properties of the comparator sort\<close>

lemma set_insort_cmp: "set (insort_cmp cmp v us) = insert v (set us)"
  by (induction us) auto

lemma length_insort_cmp: "length (insort_cmp cmp v us) = Suc (length us)"
  by (induction us) auto

lemma set_sort_cmp: "set (sort_cmp cmp vs) = set vs"
  by (induction vs) (simp_all add: sort_cmp_def set_insort_cmp)

lemma length_sort_cmp: "length (sort_cmp cmp vs) = length vs"
  by (induction vs) (simp_all add: sort_cmp_def length_insort_cmp)

lemma sorted_insort_cmp:
  assumes total: "\<And>a b. cmp a b \<le> 0 \<or> cmp b a \<le> 0"
    and trans: "\<And>a b c. cmp a b \<le> 0 \<Longrightarrow> cmp b c \<le> 0 \<Longrightarrow> cmp a c \<le> 0"
  shows "sorted_wrt (\<lambda>a b. cmp a b \<le> 0) us \<Longrightarrow>
         sorted_wrt (\<lambda>a b. cmp a b \<le> 0) (insort_cmp cmp v us)"
proof (induction us)
  case Nil
  then show ?case by simp
next
  case (Cons u us)
  show ?case
  proof (cases "cmp v u \<le> 0")
    case True
    with Cons.prems trans show ?thesis by auto
  next
    case False
    with total have "cmp u v \<le> 0" by blast
    with False Cons show ?thesis
      by (auto simp: set_insort_cmp)
  qed
qed

lemma sorted_sort_cmp:
  assumes "\<And>a b. cmp a b \<le> 0 \<or> cmp b a \<le> 0"
    and "\<And>a b c. cmp a b \<le> 0 \<Longrightarrow> cmp b c \<le> 0 \<Longrightarrow> cmp a c \<le> 0"
  shows "sorted_wrt (\<lambda>a b. cmp a b \<le> 0) (sort_cmp cmp vs)"
proof (induction vs)
  case Nil
  then show ?case by (simp add: sort_cmp_def)
next
  case (Cons v vs)
  from sorted_insort_cmp [of cmp "sort_cmp cmp vs" v, OF assms Cons]
  show ?case by (simp add: sort_cmp_def)
qed


lemma sorted_cmp_last_greatest:
  assumes "sorted_wrt (\<lambda>a b. cmp a b \<le> 0) us" "u \<in> set us" "\<And>a. cmp a a \<le> 0"
  shows "cmp u (last us) \<le> 0"
  using assms
proof (induction us)
  case Nil
  then show ?case by simp
next
  case (Cons a us)
  then show ?case by (cases "us = []") auto
qed

lemma sort_cmp_Nil_iff: "(sort_cmp cmp vs = []) = (vs = [])"
  using length_sort_cmp [of cmp vs] by (cases vs) auto


lemma last_sort_cmp_greatest:
  assumes total: "\<And>a b. cmp a b \<le> 0 \<or> cmp b a \<le> 0"
    and trans: "\<And>a b c. cmp a b \<le> 0 \<Longrightarrow> cmp b c \<le> 0 \<Longrightarrow> cmp a c \<le> 0"
    and ne: "vs \<noteq> []"
  shows "last (sort_cmp cmp vs) \<in> set vs \<and> (\<forall>u\<in>set vs. cmp u (last (sort_cmp cmp vs)) \<le> 0)"
proof -
  have refl: "cmp a a \<le> 0" for a
    using total [of a a] by simp
  from ne have sne: "sort_cmp cmp vs \<noteq> []"
    by (simp add: sort_cmp_Nil_iff)
  then have "last (sort_cmp cmp vs) \<in> set (sort_cmp cmp vs)"
    by (rule last_in_set)
  then have 1: "last (sort_cmp cmp vs) \<in> set vs"
    by (simp only: set_sort_cmp)
  have srt: "sorted_wrt (\<lambda>a b. cmp a b \<le> 0) (sort_cmp cmp vs)"
    by (rule sorted_sort_cmp [OF total trans])
  have "cmp u (last (sort_cmp cmp vs)) \<le> 0" if "u \<in> set vs" for u
  proof -
    from that have "u \<in> set (sort_cmp cmp vs)" by (simp only: set_sort_cmp)
    with srt show ?thesis
      by (rule sorted_cmp_last_greatest) (rule refl)
  qed
  with 1 show ?thesis by blast
qed

section \<open>Properties of the clearest selection\<close>



















section \<open>Properties of the snapshot deduplicator\<close>













lemma hashes_of_append: "hashes_of (xs @ ys) = hashes_of xs \<union> hashes_of ys"
  by (auto simp: hashes_of_def)



lemma process_results_nil_after:
  "rs = [] \<Longrightarrow> process_results env lmt s rs st = st"
  by simp














section \<open>Properties of the projection\<close>

text \<open>The Mercator term \<open>ln (tan \<phi> + 1 / cos \<phi>)\<close> on the open interval between the poles.\<close>

lemma sec_eq_sqrt:
  assumes "\<bar>\<phi>\<bar> < pi / 2"
  shows "1 / cos \<phi> = sqrt ((tan \<phi>)\<^sup>2 + 1)"
proof -
  from assms have c: "0 < cos \<phi>"
    by (intro cos_gt_zero_pi) auto
  have "cos \<phi> = 1 / sqrt (1 + (tan \<phi>)\<^sup>2)"
    using assms by (rule cos_tan)
  then have "1 / cos \<phi> = sqrt (1 + (tan \<phi>)\<^sup>2)"
    using c by (metis div_by_1 divide_divide_eq_right mult_1)
  then show ?thesis by (simp add: add.commute)
qed

lemma mercator_arsinh:
  assumes "\<bar>\<phi>\<bar> < pi / 2"
  shows "ln (tan \<phi> + 1 / cos \<phi>) = arsinh (tan \<phi>)"
  by (simp add: arsinh_real_def sec_eq_sqrt [OF assms])

lemma mercator_mono:
  assumes "- (pi / 2) < a" "a \<le> b" "b < pi / 2"
  shows "ln (tan a + 1 / cos a) \<le> ln (tan b + 1 / cos b)"
proof -
  from assms have "tan a \<le> tan b"
    by (intro tan_mono_le) auto
  then have "arsinh (tan a) \<le> arsinh (tan b)"
    by (metis arsinh_less_iff_real not_le)
  moreover from assms have "\<bar>a\<bar> < pi / 2" "\<bar>b\<bar> < pi / 2" by auto
  ultimately show ?thesis by (simp add: mercator_arsinh)
qed

lemma latRad_bounds:
  "- (pi / 2) < clampLat lat * pi / 180 \<and> clampLat lat * pi / 180 < pi / 2"
proof -
  have b: "- 85.05112878 \<le> clampLat lat" "clampLat lat \<le> 85.05112878"
    by (simp_all add: clampLat_def)
  have p: "0 \<le> pi" by simp
  have u: "clampLat lat * pi \<le> 85.05112878 * pi"
    using b(2) p by (rule mult_right_mono)
  have l: "- 85.05112878 * pi \<le> clampLat lat * pi"
    using b(1) p by (rule mult_right_mono)
  have "85.05112878 * pi < 90 * pi" "- (90 * pi) < - 85.05112878 * pi"
    using pi_gt_zero by simp_all
  with u l show ?thesis by linarith
qed

lemma clampLat_mono: "a \<le> b \<Longrightarrow> clampLat a \<le> clampLat b"
  by (auto simp: clampLat_def)

lemma worldPx_y_antimono:
  assumes "lat1 \<le> lat2"
  shows "snd (lonLatToWorldPx lon2 lat2 z) \<le> snd (lonLatToWorldPx lon1 lat1 z)"
proof -
  let ?a = "clampLat lat1 * pi / 180" and ?b = "clampLat lat2 * pi / 180"
  have "?a \<le> ?b"
    using clampLat_mono [OF assms] by (simp add: mult_right_mono divide_right_mono)
  with latRad_bounds [of lat1] latRad_bounds [of lat2]
  have m: "ln (tan ?a + 1 / cos ?a) \<le> ln (tan ?b + 1 / cos ?b)"
    by (intro mercator_mono) auto
  have "(1 - ln (tan ?b + 1 / cos ?b) / pi) / 2 \<le> (1 - ln (tan ?a + 1 / cos ?a) / pi) / 2"
    using m pi_gt_zero by (simp add: divide_right_mono)
  then have "(1 - ln (tan ?b + 1 / cos ?b) / pi) / 2 * 2 ^ z * 256
            \<le> (1 - ln (tan ?a + 1 / cos ?a) / pi) / 2 * 2 ^ z * 256"
    by (intro mult_right_mono) simp_all
  then show ?thesis
    by (simp add: lonLatToWorldPx_def Let_def)
qed

lemma worldPx_x_mono:
  assumes "lon1 \<le> lon2"
  shows "fst (lonLatToWorldPx lon1 lat1 z) \<le> fst (lonLatToWorldPx lon2 lat2 z)"
  using assms by (simp add: lonLatToWorldPx_def Let_def divide_right_mono mult_right_mono)

lemma calc_fields:
  "x0 (calc (minLng, minLat, maxLng, maxLat) z) = \<lfloor>fst (lonLatToWorldPx minLng maxLat z) / 256\<rfloor>"
  "x1 (calc (minLng, minLat, maxLng, maxLat) z) = \<lfloor>fst (lonLatToWorldPx maxLng minLat z) / 256\<rfloor>"
  "y0 (calc (minLng, minLat, maxLng, maxLat) z) = \<lfloor>snd (lonLatToWorldPx minLng maxLat z) / 256\<rfloor>"
  "y1 (calc (minLng, minLat, maxLng, maxLat) z) = \<lfloor>snd (lonLatToWorldPx maxLng minLat z) / 256\<rfloor>"
  "tilesX (calc b z) = x1 (calc b z) - x0 (calc b z) + 1"
  "tilesY (calc b z) = y1 (calc b z) - y0 (calc b z) + 1"
  by (simp_all add: calc_def Let_def split: prod.splits)

lemma calc_nonempty:
  assumes "minLng \<le> maxLng" "minLat \<le> maxLat"
  shows "1 \<le> tilesX (calc (minLng, minLat, maxLng, maxLat) z) \<and>
         1 \<le> tilesY (calc (minLng, minLat, maxLng, maxLat) z)"
proof -
  have "x0 (calc (minLng, minLat, maxLng, maxLat) z) \<le> x1 (calc (minLng, minLat, maxLng, maxLat) z)"
    unfolding calc_fields
    using worldPx_x_mono [OF assms(1), of maxLat z minLat]
    by (intro floor_mono divide_right_mono) simp_all
  moreover
  have "y0 (calc (minLng, minLat, maxLng, maxLat) z) \<le> y1 (calc (minLng, minLat, maxLng, maxLat) z)"
    unfolding calc_fields
    using worldPx_y_antimono [OF assms(2), of minLng z maxLng]
    by (intro floor_mono divide_right_mono) simp_all
  ultimately show ?thesis
    by (simp add: calc_fields(5,6))
qed

text \<open>
  Claim C9. For every zoom and every bounding box with \<open>minLng < maxLng\<close> and
  \<open>minLat < maxLat\<close>, the tile range of \<open>calc\<close> is not empty: \<open>tilesX \<ge> 1\<close> and
  \<open>tilesY \<ge> 1\<close>. The zoom need not be at most 24 for this.
\<close>

theorem calc_tiles_at_least_one:
  assumes "minLng < maxLng" "minLat < maxLat"
  shows "1 \<le> tilesX (calc (minLng, minLat, maxLng, maxLat) z) \<and>
         1 \<le> tilesY (calc (minLng, minLat, maxLng, maxLat) z)"
  using assms by (intro calc_nonempty) simp_all

theorem calc_tiles_at_least_one_witness:
  "(0::real) < 1 \<and> 1 \<le> tilesX (calc unit_box 12) \<and> 1 \<le> tilesY (calc unit_box 12)"
  using calc_tiles_at_least_one [of 0 1 0 1 12] by (simp add: unit_box_def)

section \<open>Bounds on the projection\<close>

lemma sin_half_ge:
  assumes "0 \<le> sin a" "0 \<le> a" "a \<le> pi"
  shows "sin (2 * a) / 2 \<le> sin a"
proof -
  have "sin (2 * a) = 2 * sin a * cos a" by (rule sin_double)
  moreover have "sin a * cos a \<le> sin a * 1"
    using assms(1) by (intro mult_left_mono) simp_all
  ultimately show ?thesis by simp
qed

lemma sin_pi_48: "1 / 16 \<le> sin (pi / 48)"
proof -
  have 1: "1 / 4 \<le> sin (pi / 12)"
    using sin_half_ge [of "pi / 12"] sin_30 sin_ge_zero [of "pi / 12"] by simp
  have 2: "1 / 8 \<le> sin (pi / 24)"
    using sin_half_ge [of "pi / 24"] 1 sin_ge_zero [of "pi / 24"] by simp
  show ?thesis
    using sin_half_ge [of "pi / 48"] 2 sin_ge_zero [of "pi / 48"] by simp
qed

lemma cos_clamped_ge:
  assumes "\<bar>\<phi>\<bar> \<le> 85.05112878 * pi / 180"
  shows "1 / 16 \<le> cos \<phi>"
proof -
  have "85.05112878 * pi / 180 \<le> pi / 2 - pi / 48"
    using pi_gt_zero by simp
  with assms have b: "\<bar>\<phi>\<bar> \<le> pi / 2 - pi / 48" by simp
  have "cos (pi / 2 - pi / 48) \<le> cos \<bar>\<phi>\<bar>"
    using b pi_gt_zero by (intro cos_monotone_0_pi_le) simp_all
  moreover have "cos (pi / 2 - pi / 48) = sin (pi / 48)"
    using sin_cos_eq [of "pi / 48 :: real"] by simp
  ultimately show ?thesis
    using sin_pi_48 by simp
qed

lemma ln_32_le: "ln (32::real) \<le> 5"
proof -
  have "ln (2::real) \<le> 1"
    using ln_le_minus_one [of 2] by simp
  moreover have "ln (32::real) = 5 * ln 2"
    using ln_realpow [of 2 5] by simp
  ultimately show ?thesis by simp
qed

lemma mercator_bounded:
  assumes "\<bar>\<phi>\<bar> \<le> 85.05112878 * pi / 180"
  shows "\<bar>ln (tan \<phi> + 1 / cos \<phi>)\<bar> \<le> 5"
proof -
  from cos_clamped_ge [OF assms] have c: "1 / 16 \<le> cos \<phi>" .
  then have cp: "0 < cos \<phi>" by simp
  have s: "- 1 \<le> sin \<phi>" "sin \<phi> \<le> 1" by simp_all
  have e: "tan \<phi> + 1 / cos \<phi> = (1 + sin \<phi>) / cos \<phi>"
    using cp by (simp add: tan_def add_divide_distrib)
  have sq: "(1 + sin \<phi>) * (1 - sin \<phi>) = cos \<phi> * cos \<phi>"
    using sin_cos_squared_add [of \<phi>] by (simp add: algebra_simps power2_eq_square)
  have s1: "sin \<phi> < 1"
  proof (rule ccontr)
    assume "\<not> sin \<phi> < 1"
    with sin_le_one [of \<phi>] have "sin \<phi> = 1" by linarith
    with sq have "cos \<phi> * cos \<phi> = 0" by simp
    with cp show False by simp
  qed
  have sm1: "- 1 < sin \<phi>"
  proof (rule ccontr)
    assume "\<not> - 1 < sin \<phi>"
    with sin_ge_minus_one [of \<phi>] have "sin \<phi> = - 1" by linarith
    with sq have "cos \<phi> * cos \<phi> = 0" by simp
    with cp show False by simp
  qed
  have up: "(1 + sin \<phi>) / cos \<phi> \<le> 32"
  proof -
    have "(1 + sin \<phi>) / cos \<phi> \<le> 2 / cos \<phi>"
      using s cp by (intro divide_right_mono) simp_all
    also have "\<dots> \<le> 2 / (1 / 16)"
      using c by (intro divide_left_mono) simp_all
    finally show ?thesis by simp
  qed
  have e2: "(1 + sin \<phi>) / cos \<phi> = cos \<phi> / (1 - sin \<phi>)"
    using sq cp s1 by (simp add: field_simps)
  have lo: "1 / 32 \<le> (1 + sin \<phi>) / cos \<phi>"
  proof -
    have "1 - sin \<phi> \<le> 2" using s by simp
    then have "cos \<phi> / 2 \<le> cos \<phi> / (1 - sin \<phi>)"
      using cp s1 by (intro divide_left_mono) simp_all
    moreover have "1 / 32 \<le> cos \<phi> / 2" using c by simp
    ultimately have "1 / 32 \<le> cos \<phi> / (1 - sin \<phi>)" by (rule order_trans [rotated])
    then show ?thesis by (simp only: e2)
  qed
  define t where "t = (1 + sin \<phi>) / cos \<phi>"
  from up lo have t: "t \<le> 32" "1 / 32 \<le> t" by (simp_all only: t_def)
  then have pos: "0 < t" by linarith
  have "ln t \<le> ln 32"
    using t(1) pos by (simp add: ln_le_cancel_iff)
  moreover have "ln (1 / 32) \<le> ln t"
    using t(2) pos by (subst ln_le_cancel_iff) simp_all
  moreover have "ln (1 / 32 :: real) = - ln 32"
    by (simp add: ln_div)
  ultimately have "\<bar>ln t\<bar> \<le> 5"
    using ln_32_le by linarith
  then show ?thesis
    by (simp only: e t_def)
qed

lemma mercator_small:
  assumes "0 \<le> \<phi>" "\<phi> \<le> pi / 3"
  shows "0 \<le> ln (tan \<phi> + 1 / cos \<phi>) \<and> ln (tan \<phi> + 1 / cos \<phi>) \<le> 2"
proof -
  have "cos (pi / 3) \<le> cos \<phi>"
    using assms pi_gt_zero by (intro cos_monotone_0_pi_le) simp_all
  then have c: "1 / 2 \<le> cos \<phi>" by (simp add: cos_60)
  then have cp: "0 < cos \<phi>" by simp
  have c1: "cos \<phi> \<le> 1" by simp
  have s: "0 \<le> sin \<phi>" "sin \<phi> \<le> 1"
    using assms pi_gt_zero by (simp_all add: sin_ge_zero)
  have e: "tan \<phi> + 1 / cos \<phi> = (1 + sin \<phi>) / cos \<phi>"
    using cp by (simp add: tan_def add_divide_distrib)
  have "1 \<le> 1 / cos \<phi>" using cp c1 by simp
  moreover have "1 / cos \<phi> \<le> (1 + sin \<phi>) / cos \<phi>"
    using s cp by (intro divide_right_mono) simp_all
  ultimately have lo: "1 \<le> (1 + sin \<phi>) / cos \<phi>" by simp
  have up: "(1 + sin \<phi>) / cos \<phi> \<le> 4"
  proof -
    have "(1 + sin \<phi>) / cos \<phi> \<le> 2 / cos \<phi>"
      using s cp by (intro divide_right_mono) simp_all
    also have "\<dots> \<le> 2 / (1 / 2)"
      using c by (intro divide_left_mono) simp_all
    finally show ?thesis by simp
  qed
  have "ln (2::real) \<le> 1"
    using ln_le_minus_one [of 2] by simp
  moreover have "ln (4::real) = 2 * ln 2"
    using ln_realpow [of 2 2] by simp
  ultimately have l4: "ln (4::real) \<le> 2" by simp
  define t where "t = (1 + sin \<phi>) / cos \<phi>"
  from up lo have t: "t \<le> 4" "1 \<le> t" by (simp_all only: t_def)
  then have pos: "0 < t" by linarith
  have "ln t \<le> ln 4"
    using t(1) pos by (simp add: ln_le_cancel_iff)
  moreover have "0 \<le> ln t"
    using t(2) by simp
  ultimately have "0 \<le> ln t \<and> ln t \<le> 2"
    using l4 by linarith
  then show ?thesis
    by (simp only: e t_def)
qed

lemma clamped_latRad: "\<bar>clampLat lat * pi / 180\<bar> \<le> 85.05112878 * pi / 180"
proof -
  have b: "- 85.05112878 \<le> clampLat lat" "clampLat lat \<le> 85.05112878"
    by (simp_all add: clampLat_def)
  have p: "0 \<le> pi" by simp
  define w where "w = clampLat lat * pi"
  define u where "u = 85.05112878 * pi"
  have "w \<le> u"
    unfolding w_def u_def using b(2) p by (rule mult_right_mono)
  moreover have "- 85.05112878 * pi \<le> clampLat lat * pi"
    using b(1) p by (rule mult_right_mono)
  then have "- u \<le> w"
    by (simp only: w_def u_def mult_minus_left)
  ultimately have "\<bar>w / 180\<bar> \<le> u / 180" by linarith
  then show ?thesis by (simp only: w_def u_def)
qed

lemma worldPx_zoom0:
  "fst (lonLatToWorldPx lon lat 0) / 256 = (lon + 180) / 360"
  "snd (lonLatToWorldPx lon lat 0) / 256 =
     (1 - ln (tan (clampLat lat * pi / 180) + 1 / cos (clampLat lat * pi / 180)) / pi) / 2"
  by (simp_all add: lonLatToWorldPx_def Let_def)

lemma tile_y_zoom0:
  "- 1 \<le> \<lfloor>snd (lonLatToWorldPx lon lat 0) / 256\<rfloor> \<and> \<lfloor>snd (lonLatToWorldPx lon lat 0) / 256\<rfloor> \<le> 1"
proof -
  define m where "m = ln (tan (clampLat lat * pi / 180) + 1 / cos (clampLat lat * pi / 180))"
  have m5: "\<bar>m\<bar> \<le> 5"
    unfolding m_def by (rule mercator_bounded [OF clamped_latRad])
  have "\<bar>m\<bar> / pi \<le> 5 / 2"
  proof -
    have "\<bar>m\<bar> / pi \<le> 5 / pi"
      using m5 pi_gt_zero by (intro divide_right_mono) simp_all
    also have "5 / pi \<le> 5 / 2"
      using pi_ge_two by (intro divide_left_mono) simp_all
    finally show ?thesis .
  qed
  moreover define r where "r = m / pi"
  moreover have "\<bar>r\<bar> = \<bar>m\<bar> / pi"
    by (simp add: r_def)
  ultimately have q0: "\<bar>r\<bar> \<le> 5 / 2"
    by linarith
  then have "- (5 / 2) \<le> r" by linarith
  moreover from q0 have "r \<le> 5 / 2" by linarith
  ultimately have q: "- (5 / 2) \<le> r" "r \<le> 5 / 2" .
  have v: "snd (lonLatToWorldPx lon lat 0) / 256 = (1 - r) / 2"
    by (simp only: worldPx_zoom0 m_def r_def)
  from q have "- 1 \<le> (1 - r) / 2" by simp
  moreover from q have "(1 - r) / 2 < 2" by simp
  ultimately have "- 1 \<le> (1 - r) / 2" "(1 - r) / 2 < 2" .
  then show ?thesis
    unfolding v by (simp add: le_floor_iff floor_le_iff)
qed

lemma tile_x_zoom0:
  assumes "- 180 \<le> lon" "lon \<le> 180"
  shows "0 \<le> \<lfloor>fst (lonLatToWorldPx lon lat 0) / 256\<rfloor> \<and> \<lfloor>fst (lonLatToWorldPx lon lat 0) / 256\<rfloor> \<le> 1"
proof -
  from assms have "0 \<le> (lon + 180) / 360" by simp
  moreover from assms have "(lon + 180) / 360 < 2" by simp
  ultimately have "0 \<le> (lon + 180) / 360" "(lon + 180) / 360 < 2" .
  then show ?thesis
    unfolding worldPx_zoom0 by (simp add: le_floor_iff floor_le_iff)
qed

lemma zoom0_tiles:
  assumes "- 180 \<le> minLng" "minLng \<le> 180" "- 180 \<le> maxLng" "maxLng \<le> 180"
  shows "tilesX (calc (minLng, minLat, maxLng, maxLat) 0) *
         tilesY (calc (minLng, minLat, maxLng, maxLat) 0) \<le> 6 \<and>
         0 \<le> tilesX (calc (minLng, minLat, maxLng, maxLat) 0) \<and>
         tilesX (calc (minLng, minLat, maxLng, maxLat) 0) \<le> 2 \<and>
         tilesY (calc (minLng, minLat, maxLng, maxLat) 0) \<le> 3"
proof -
  define tx where "tx = tilesX (calc (minLng, minLat, maxLng, maxLat) 0)"
  define ty where "ty = tilesY (calc (minLng, minLat, maxLng, maxLat) 0)"
  have x: "0 \<le> tx" "tx \<le> 2"
    unfolding tx_def calc_fields
    using tile_x_zoom0 [OF assms(1,2), of maxLat] tile_x_zoom0 [OF assms(3,4), of minLat]
    by linarith+
  have y: "ty \<le> 3"
    unfolding ty_def calc_fields
    using tile_y_zoom0 [of minLng maxLat] tile_y_zoom0 [of maxLng minLat]
    by linarith
  from x have "tx = 0 \<or> tx = 1 \<or> tx = 2" by linarith
  with y have "tx * ty \<le> 6" by auto
  with x y show ?thesis by (simp only: tx_def ty_def simp_thms)
qed

section \<open>Properties of the tile mosaic loader\<close>

lemma reduceZoom_le: "reduceZoom box z \<le> z"
  by (induction z) (simp_all add: le_SucI)

lemma reduceZoom_budget:
  "reduceZoom box z = 0 \<or>
   tilesX (calc box (reduceZoom box z)) * tilesY (calc box (reduceZoom box z)) \<le> maxTiles"
  by (induction z) auto

lemma reduceZoom_id:
  "tilesX (calc box z) * tilesY (calc box z) \<le> maxTiles \<Longrightarrow> reduceZoom box z = z"
  by (cases z) simp_all

lemma length_concat_const:
  "(\<And>v. length (f v) = n) \<Longrightarrow> length (concat (map f vs)) = n * length vs"
  by (induction vs) simp_all

lemma length_tile_list:
  "length (tile_list c) = nat (x1 c - x0 c + 1) * nat (y1 c - y0 c + 1)"
  unfolding tile_list_def
  by (subst length_concat_const [where n = "nat (x1 c - x0 c + 1)"]) simp_all

lemma fetch_tiles_count:
  "fetch_tiles env allow z ts k missing = (r, k') \<Longrightarrow> k \<le> k' \<and> k' \<le> k + length ts"
proof (induction ts arbitrary: k missing)
  case Nil
  then show ?case by simp
next
  case (Cons t ts)
  obtain tx ty where t: "t = (tx, ty)" by (cases t)
  show ?case
  proof (cases "fetchTile env k z tx ty")
    case TileOk
    with Cons.prems t have "fetch_tiles env allow z ts (Suc k) missing = (r, k')" by simp
    from Cons.IH [OF this] show ?thesis by simp
  next
    case TileNotOk
    show ?thesis
    proof (cases allow)
      case True
      with Cons.prems t TileNotOk
      have "fetch_tiles env allow z ts (Suc k) (missing + 1) = (r, k')" by simp
      from Cons.IH [OF this] show ?thesis by simp
    next
      case False
      with Cons.prems t TileNotOk show ?thesis by auto
    qed
  next
    case TileThrew
    with Cons.prems t show ?thesis by auto
  qed
qed

lemma run_attempt_count:
  assumes "run_attempt env allow attempt z c k = (r, k')"
  shows "k \<le> k' \<and> k' \<le> k + length (tile_list c)"
proof (cases "mosaicCtx env attempt")
  case False
  with assms show ?thesis by (simp add: run_attempt_def)
next
  case True
  obtain fr k2 where f: "fetch_tiles env allow z (tile_list c) k 0 = (fr, k2)"
    by (cases "fetch_tiles env allow z (tile_list c) k 0")
  from assms True f have "k' = k2"
    by (auto simp: run_attempt_def Let_def split: sum.splits if_splits)
  with fetch_tiles_count [OF f] show ?thesis by simp
qed

lemma tiles_within_budget:
  assumes "tilesX (calc box z) * tilesY (calc box z) \<le> maxTiles"
  shows "int (length (tile_list (calc box z))) \<le> maxTiles"
proof -
  define tx where "tx = tilesX (calc box z)"
  define ty where "ty = tilesY (calc box z)"
  have l: "length (tile_list (calc box z)) = nat tx * nat ty"
    by (simp add: length_tile_list tx_def ty_def calc_fields(5,6))
  show ?thesis
  proof (cases "0 < tx \<and> 0 < ty")
    case True
    then have "int (nat tx * nat ty) = tx * ty" by simp
    with assms l show ?thesis by (simp only: tx_def ty_def)
  next
    case False
    then have "nat tx * nat ty = 0" by auto
    with l show ?thesis by (simp add: maxTiles_def)
  qed
qed

text \<open>One iteration of the attempt loop, with the result of the attempt named.\<close>

lemma attempt_loop_success:
  assumes "run_attempt env allow attempt (reduceZoom box z) (calc box (reduceZoom box z)) k = (Inr m, k')"
  shows "attempt_loop env box allow (Suc r) attempt z k e =
           (Inr m, [\<lparr>at_zoom = reduceZoom box z, at_fetches = k' - k, at_error = None\<rparr>])"
  using assms by (simp add: Let_def)

lemma attempt_loop_last:
  assumes "run_attempt env allow attempt (reduceZoom box z) (calc box (reduceZoom box z)) k = (Inl err, k')"
    and "reduceZoom box z = 0"
  shows "attempt_loop env box allow (Suc r) attempt z k e =
           (Inl err, [\<lparr>at_zoom = reduceZoom box z, at_fetches = k' - k, at_error = Some err\<rparr>])"
  using assms by (simp add: Let_def)

lemma attempt_loop_retry:
  assumes "run_attempt env allow attempt (reduceZoom box z) (calc box (reduceZoom box z)) k = (Inl err, k')"
    and "0 < reduceZoom box z"
  shows "attempt_loop env box allow (Suc r) attempt z k e =
           (fst (attempt_loop env box allow r (Suc attempt) (reduceZoom box z - 1) k' err),
            \<lparr>at_zoom = reduceZoom box z, at_fetches = k' - k, at_error = Some err\<rparr> #
            snd (attempt_loop env box allow r (Suc attempt) (reduceZoom box z - 1) k' err))"
  using assms by (simp add: Let_def split: prod.splits)

lemma attempt_loop_entries:
  "a \<in> set (snd (attempt_loop env box allow r attempt z k e)) \<Longrightarrow>
   (at_zoom a = 0 \<or>
    tilesX (calc box (at_zoom a)) * tilesY (calc box (at_zoom a)) \<le> maxTiles) \<and>
   at_fetches a \<le> length (tile_list (calc box (at_zoom a)))"
proof (induction r arbitrary: attempt z k e)
  case 0
  then show ?case by simp
next
  case (Suc r)
  define z' where "z' = reduceZoom box z"
  obtain ra k' where ra: "run_attempt env allow attempt z' (calc box z') k = (ra, k')"
    by (cases "run_attempt env allow attempt z' (calc box z') k")
  from run_attempt_count [OF ra] have cnt: "k' - k \<le> length (tile_list (calc box z'))"
    by arith
  have bud: "z' = 0 \<or> tilesX (calc box z') * tilesY (calc box z') \<le> maxTiles"
    unfolding z'_def by (rule reduceZoom_budget)
  have entry: "(at_zoom a = 0 \<or>
      tilesX (calc box (at_zoom a)) * tilesY (calc box (at_zoom a)) \<le> maxTiles) \<and>
      at_fetches a \<le> length (tile_list (calc box (at_zoom a)))"
    if "a = \<lparr>at_zoom = z', at_fetches = k' - k, at_error = x\<rparr>" for x
    using that cnt bud by auto
  show ?case
  proof (cases ra)
    case (Inr m)
    with Suc.prems ra entry show ?thesis
      using attempt_loop_success [of env allow attempt box z k m k' r e]
      by (simp add: z'_def)
  next
    case (Inl err)
    show ?thesis
    proof (cases "0 < z'")
      case False
      with Suc.prems ra Inl entry show ?thesis
        using attempt_loop_last [of env allow attempt box z k err k' r e]
        by (simp add: z'_def)
    next
      case True
      with Suc.prems ra Inl have
        "a = \<lparr>at_zoom = z', at_fetches = k' - k, at_error = Some err\<rparr> \<or>
         a \<in> set (snd (attempt_loop env box allow r (Suc attempt) (z' - 1) k' err))"
        using attempt_loop_retry [of env allow attempt box z k err k' r e]
        by (simp add: z'_def)
      then show ?thesis
      proof
        assume "a = \<lparr>at_zoom = z', at_fetches = k' - k, at_error = Some err\<rparr>"
        then show ?thesis by (rule entry)
      next
        assume "a \<in> set (snd (attempt_loop env box allow r (Suc attempt) (z' - 1) k' err))"
        then show ?thesis by (rule Suc.IH)
      qed
    qed
  qed
qed

lemma loader_entries_budget:
  assumes "a \<in> set (snd (loadBboxImageFromTiles env box requestedZoom allow))"
  shows "(0 < at_zoom a \<longrightarrow> within_budget box a) \<and>
         (tilesX (calc box 0) * tilesY (calc box 0) \<le> maxTiles \<longrightarrow> within_budget box a)"
proof -
  from assms have e: "(at_zoom a = 0 \<or>
      tilesX (calc box (at_zoom a)) * tilesY (calc box (at_zoom a)) \<le> maxTiles) \<and>
      at_fetches a \<le> length (tile_list (calc box (at_zoom a)))"
    unfolding loadBboxImageFromTiles_def by (rule attempt_loop_entries)
  have w: "within_budget box a"
    if "tilesX (calc box (at_zoom a)) * tilesY (calc box (at_zoom a)) \<le> maxTiles"
  proof -
    from tiles_within_budget [OF that] e
    have "int (at_fetches a) \<le> maxTiles" by linarith
    with that show ?thesis by (simp add: within_budget_def)
  qed
  from e w show ?thesis by auto
qed

text \<open>
  Claim C4, as amended. Every attempt at a zoom above 0 stays within the budget: its tile
  range has at most 36 tiles and it issues at most 36 tile requests. For a bounding box
  whose longitudes lie in \<open>[-180, 180]\<close> this holds for every attempt, at zoom 0 too,
  where the range has at most \<open>2 * 3\<close> tiles. (The reduction loop stops at zoom 0
  whatever the number of tiles, so a wider box can exceed the budget there.)
\<close>

theorem loader_tile_budget:
  "\<forall>a\<in>set (snd (loadBboxImageFromTiles env (minLng, minLat, maxLng, maxLat)
                  requestedZoom allowMissingTiles)).
     (0 < at_zoom a \<longrightarrow> within_budget (minLng, minLat, maxLng, maxLat) a) \<and>
     (- 180 \<le> minLng \<and> minLng \<le> 180 \<and> - 180 \<le> maxLng \<and> maxLng \<le> 180 \<longrightarrow>
        within_budget (minLng, minLat, maxLng, maxLat) a)"
proof (intro ballI conjI impI)
  fix a
  assume a: "a \<in> set (snd (loadBboxImageFromTiles env (minLng, minLat, maxLng, maxLat)
                  requestedZoom allowMissingTiles))"
  {
    assume "0 < at_zoom a"
    with loader_entries_budget [OF a]
    show "within_budget (minLng, minLat, maxLng, maxLat) a" by blast
  }
  {
    assume "- 180 \<le> minLng \<and> minLng \<le> 180 \<and> - 180 \<le> maxLng \<and> maxLng \<le> 180"
    then have "tilesX (calc (minLng, minLat, maxLng, maxLat) 0) *
               tilesY (calc (minLng, minLat, maxLng, maxLat) 0) \<le> 6"
      using zoom0_tiles [of minLng maxLng minLat maxLat] by blast
    then have "tilesX (calc (minLng, minLat, maxLng, maxLat) 0) *
               tilesY (calc (minLng, minLat, maxLng, maxLat) 0) \<le> maxTiles"
      by (simp add: maxTiles_def)
    with loader_entries_budget [OF a]
    show "within_budget (minLng, minLat, maxLng, maxLat) a" by blast
  }
qed

text \<open>The rows of a box between latitude 0 and latitude 1.\<close>

lemma clampLat_0_1: "clampLat 0 = 0" "clampLat 1 = 1"
  by (simp_all add: clampLat_def)

lemma worldPx_y_lat0: "snd (lonLatToWorldPx lon 0 z) / 256 = 2 ^ z / 2"
  by (simp add: lonLatToWorldPx_def Let_def clampLat_0_1)

lemma worldPx_y_lat1:
  "0 \<le> snd (lonLatToWorldPx lon 1 z) / 256 \<and> snd (lonLatToWorldPx lon 1 z) / 256 \<le> 2 ^ z / 2"
proof -
  define m where "m = ln (tan (pi / 180) + 1 / cos (pi / 180))"
  have "0 \<le> pi / 180" "pi / 180 \<le> pi / 3" using pi_gt_zero by simp_all
  from mercator_small [OF this] have m: "0 \<le> m" "m \<le> 2" by (simp_all add: m_def)
  define r where "r = m / pi"
  have r: "0 \<le> r" "r \<le> 1"
  proof -
    show "0 \<le> r" unfolding r_def using m(1) pi_gt_zero by simp
    have "m / pi \<le> 2 / pi" using m(2) pi_gt_zero by (intro divide_right_mono) simp_all
    also have "2 / pi \<le> 1" using pi_ge_two by simp
    finally show "r \<le> 1" by (simp add: r_def)
  qed
  have v: "snd (lonLatToWorldPx lon 1 z) / 256 = (1 - r) / 2 * 2 ^ z"
    by (simp add: lonLatToWorldPx_def Let_def clampLat_0_1 m_def r_def)
  have "0 \<le> (1 - r) / 2 * 2 ^ z"
    using r by (intro mult_nonneg_nonneg) simp_all
  moreover have "(1 - r) / 2 * 2 ^ z \<le> 1 / 2 * 2 ^ z"
    using r by (intro mult_right_mono) simp_all
  ultimately show ?thesis unfolding v by simp
qed

lemma lat01_rows:
  "y1 (calc (minLng, 0, maxLng, 1) z) = \<lfloor>(2::real) ^ z / 2\<rfloor> \<and>
   0 \<le> y0 (calc (minLng, 0, maxLng, 1) z) \<and>
   y0 (calc (minLng, 0, maxLng, 1) z) \<le> y1 (calc (minLng, 0, maxLng, 1) z)"
proof -
  have 1: "y1 (calc (minLng, 0, maxLng, 1) z) = \<lfloor>(2::real) ^ z / 2\<rfloor>"
    by (simp only: calc_fields worldPx_y_lat0)
  have 2: "0 \<le> y0 (calc (minLng, 0, maxLng, 1) z)"
    unfolding calc_fields using worldPx_y_lat1 [of minLng z] by simp
  have "y0 (calc (minLng, 0, maxLng, 1) z) \<le> \<lfloor>(2::real) ^ z / 2\<rfloor>"
    unfolding calc_fields using worldPx_y_lat1 [of minLng z] by (intro floor_mono) simp
  with 1 2 show ?thesis by simp
qed

lemma wide_box_tiles:
  "x0 (calc wide_box 0) = - 19 \<and> x1 (calc wide_box 0) = 21 \<and>
   y0 (calc wide_box 0) = 0 \<and> y1 (calc wide_box 0) = 0 \<and>
   tilesX (calc wide_box 0) = 41 \<and> tilesY (calc wide_box 0) = 1"
proof -
  have x: "x0 (calc wide_box 0) = - 19" "x1 (calc wide_box 0) = 21"
    by (simp_all add: wide_box_def calc_fields worldPx_zoom0)
  from lat01_rows [of "- 7020" 7380 0]
  have y: "y1 (calc wide_box 0) = 0" "y0 (calc wide_box 0) = 0"
    by (simp_all add: wide_box_def)
  from x y show ?thesis by (simp add: calc_fields(5,6))
qed

lemma unit_box_tiles:
  assumes "z \<le> 6"
  shows "tilesX (calc unit_box z) = 1 \<and> 1 \<le> tilesY (calc unit_box z) \<and>
         tilesY (calc unit_box z) \<le> 33"
proof -
  from assms have zs: "z = 0 \<or> z = 1 \<or> z = 2 \<or> z = 3 \<or> z = 4 \<or> z = 5 \<or> z = 6" by arith
  have fx: "fst (lonLatToWorldPx lon lat z) / 256 = (lon + 180) / 360 * 2 ^ z" for lon lat
    by (simp add: lonLatToWorldPx_def Let_def)
  from zs have x: "x0 (calc unit_box z) = x1 (calc unit_box z)"
    by (auto simp: unit_box_def calc_fields fx)
  define f where "f = \<lfloor>(2::real) ^ z / 2\<rfloor>"
  from zs have p: "f \<le> 32" unfolding f_def by auto
  define a where "a = y0 (calc unit_box z)"
  define b where "b = y1 (calc unit_box z)"
  have "b = f \<and> 0 \<le> a \<and> a \<le> b"
    unfolding unit_box_def a_def b_def f_def by (rule lat01_rows)
  with p have "1 \<le> b - a + 1 \<and> b - a + 1 \<le> 33" by linarith
  then have "1 \<le> tilesY (calc unit_box z) \<and> tilesY (calc unit_box z) \<le> 33"
    by (simp only: calc_fields(6) a_def b_def)
  with x show ?thesis by (simp add: calc_fields(5))
qed

text \<open>The shape of the log of the attempt loop.\<close>

lemma run_attempt_usedZoom:
  "run_attempt env allow attempt z c k = (Inr m, k') \<Longrightarrow> usedZoom m = z"
  by (auto simp: run_attempt_def Let_def split: if_splits sum.splits prod.splits)

lemma attempt_loop_Suc_cases:
  obtains
    (success) m n where
      "attempt_loop env box allow (Suc r) attempt z k e =
         (Inr m, [\<lparr>at_zoom = reduceZoom box z, at_fetches = n, at_error = None\<rparr>])"
      "usedZoom m = reduceZoom box z"
  | (final) err n where
      "reduceZoom box z = 0"
      "attempt_loop env box allow (Suc r) attempt z k e =
         (Inl err, [\<lparr>at_zoom = reduceZoom box z, at_fetches = n, at_error = Some err\<rparr>])"
  | (retry) err n k' where
      "0 < reduceZoom box z"
      "attempt_loop env box allow (Suc r) attempt z k e =
         (fst (attempt_loop env box allow r (Suc attempt) (reduceZoom box z - 1) k' err),
          \<lparr>at_zoom = reduceZoom box z, at_fetches = n, at_error = Some err\<rparr> #
          snd (attempt_loop env box allow r (Suc attempt) (reduceZoom box z - 1) k' err))"
proof -
  obtain ra k' where ra:
    "run_attempt env allow attempt (reduceZoom box z) (calc box (reduceZoom box z)) k = (ra, k')"
    by (cases "run_attempt env allow attempt (reduceZoom box z) (calc box (reduceZoom box z)) k")
  show ?thesis
  proof (cases ra)
    case (Inr m)
    with ra attempt_loop_success [of env allow attempt box z k m k' r e]
      run_attempt_usedZoom [of env allow attempt "reduceZoom box z" _ k m k']
    show ?thesis by (intro success) simp_all
  next
    case (Inl err)
    show ?thesis
    proof (cases "0 < reduceZoom box z")
      case True
      with ra Inl attempt_loop_retry [of env allow attempt box z k err k' r e]
      show ?thesis by (intro retry) simp_all
    next
      case False
      with ra Inl attempt_loop_last [of env allow attempt box z k err k' r e]
      show ?thesis by (intro final) simp_all
    qed
  qed
qed

lemma attempt_loop_length: "length (snd (attempt_loop env box allow r attempt z k e)) \<le> r"
proof (induction r arbitrary: attempt z k e)
  case 0
  then show ?case by simp
next
  case (Suc r)
  show ?case
  proof (cases rule: attempt_loop_Suc_cases [of env box allow r attempt z k e])
    case (success m n)
    then show ?thesis by simp
  next
    case (final err n)
    then show ?thesis by simp
  next
    case (retry err n k')
    with Suc.IH [of "Suc attempt" "reduceZoom box z - 1" k' err] show ?thesis by simp
  qed
qed

lemma attempt_loop_first:
  "0 < r \<Longrightarrow>
   snd (attempt_loop env box allow r attempt z k e) \<noteq> [] \<and>
   at_zoom (hd (snd (attempt_loop env box allow r attempt z k e))) = reduceZoom box z"
proof (cases r)
  case 0
  then show "0 < r \<Longrightarrow> ?thesis" by simp
next
  case (Suc r')
  show ?thesis
    unfolding Suc
    by (cases rule: attempt_loop_Suc_cases [of env box allow r' attempt z k e]) simp_all
qed

lemma attempt_loop_chain:
  "Suc i < length (snd (attempt_loop env box allow r attempt z k e)) \<Longrightarrow>
   at_error (snd (attempt_loop env box allow r attempt z k e) ! i) \<noteq> None \<and>
   0 < at_zoom (snd (attempt_loop env box allow r attempt z k e) ! i) \<and>
   at_zoom (snd (attempt_loop env box allow r attempt z k e) ! Suc i) =
     reduceZoom box (at_zoom (snd (attempt_loop env box allow r attempt z k e) ! i) - 1)"
proof (induction r arbitrary: attempt z k e i)
  case 0
  then show ?case by simp
next
  case (Suc r)
  show ?case
  proof (cases rule: attempt_loop_Suc_cases [of env box allow r attempt z k e])
    case (success m n)
    with Suc.prems show ?thesis by simp
  next
    case (final err n)
    with Suc.prems show ?thesis by simp
  next
    case (retry err n k')
    define R where "R = attempt_loop env box allow r (Suc attempt) (reduceZoom box z - 1) k' err"
    from retry have A: "snd (attempt_loop env box allow (Suc r) attempt z k e) =
        \<lparr>at_zoom = reduceZoom box z, at_fetches = n, at_error = Some err\<rparr> # snd R"
      by (simp add: R_def)
    show ?thesis
    proof (cases i)
      case 0
      with Suc.prems A have ne: "snd R \<noteq> []" by auto
      have "0 < r"
      proof (rule ccontr)
        assume "\<not> 0 < r"
        then have "snd R = []" by (simp add: R_def)
        with ne show False by simp
      qed
      from attempt_loop_first [OF this, of env box allow "Suc attempt" "reduceZoom box z - 1" k' err]
      have "at_zoom (hd (snd R)) = reduceZoom box (reduceZoom box z - 1)"
        by (simp add: R_def)
      with ne have "at_zoom (snd R ! 0) = reduceZoom box (reduceZoom box z - 1)"
        by (simp add: hd_conv_nth)
      with 0 retry(1) show ?thesis
        unfolding A by simp
    next
      case (Suc j)
      with Suc.prems A have "Suc j < length (snd R)" by simp
      from Suc.IH [OF this [unfolded R_def]] Suc show ?thesis
        unfolding A R_def by simp
    qed
  qed
qed

lemma attempt_loop_result:
  "0 < r \<Longrightarrow>
   (case fst (attempt_loop env box allow r attempt z k e) of
      Inl err \<Rightarrow>
        at_error (last (snd (attempt_loop env box allow r attempt z k e))) = Some err \<and>
        (at_zoom (last (snd (attempt_loop env box allow r attempt z k e))) = 0 \<or>
         length (snd (attempt_loop env box allow r attempt z k e)) = r)
    | Inr m \<Rightarrow>
        at_error (last (snd (attempt_loop env box allow r attempt z k e))) = None \<and>
        usedZoom m = at_zoom (last (snd (attempt_loop env box allow r attempt z k e))))"
proof (induction r arbitrary: attempt z k e)
  case 0
  then show ?case by simp
next
  case (Suc r)
  show ?case
  proof (cases rule: attempt_loop_Suc_cases [of env box allow r attempt z k e])
    case (success m n)
    then show ?thesis by simp
  next
    case (final err n)
    then show ?thesis by simp
  next
    case (retry err n k')
    define R where "R = attempt_loop env box allow r (Suc attempt) (reduceZoom box z - 1) k' err"
    from retry have A: "attempt_loop env box allow (Suc r) attempt z k e =
        (fst R, \<lparr>at_zoom = reduceZoom box z, at_fetches = n, at_error = Some err\<rparr> # snd R)"
      by (simp add: R_def)
    show ?thesis
    proof (cases r)
      case 0
      then have "R = (Inl err, [])" by (simp add: R_def)
      with 0 show ?thesis unfolding A by simp
    next
      case (Suc r')
      then have pos: "0 < r" by simp
      from attempt_loop_first [OF pos, of env box allow "Suc attempt" "reduceZoom box z - 1" k' err]
      have ne: "snd R \<noteq> []" by (simp add: R_def)
      from Suc.IH [OF pos, of "Suc attempt" "reduceZoom box z - 1" k' err] ne
      show ?thesis
        unfolding A R_def [symmetric] by (auto split: sum.splits)
    qed
  qed
qed

text \<open>
  Claim C5, as amended. A call makes between one and six attempts, the first at the zoom
  the budget loop gives for the requested zoom. Every attempt but the last one failed at
  a zoom above 0 and is followed by an attempt that starts from that zoom minus 1 (the
  budget loop of the next attempt may lower it further). When the call fails, the error
  is the error of the last attempt, and that attempt was made at zoom 0 or was the sixth;
  so a failed attempt at a zoom above 0 is always retried unless it is the sixth.
\<close>

theorem loader_retry_policy:
  "snd (loadBboxImageFromTiles env box requestedZoom allow) \<noteq> [] \<and>
   length (snd (loadBboxImageFromTiles env box requestedZoom allow)) \<le> 6 \<and>
   at_zoom (hd (snd (loadBboxImageFromTiles env box requestedZoom allow))) =
     reduceZoom box (initialZoom requestedZoom) \<and>
   (\<forall>i. Suc i < length (snd (loadBboxImageFromTiles env box requestedZoom allow)) \<longrightarrow>
      at_error (snd (loadBboxImageFromTiles env box requestedZoom allow) ! i) \<noteq> None \<and>
      0 < at_zoom (snd (loadBboxImageFromTiles env box requestedZoom allow) ! i) \<and>
      at_zoom (snd (loadBboxImageFromTiles env box requestedZoom allow) ! Suc i) =
        reduceZoom box (at_zoom (snd (loadBboxImageFromTiles env box requestedZoom allow) ! i) - 1)) \<and>
   (\<forall>err. fst (loadBboxImageFromTiles env box requestedZoom allow) = Inl err \<longrightarrow>
      at_error (last (snd (loadBboxImageFromTiles env box requestedZoom allow))) = Some err \<and>
      (at_zoom (last (snd (loadBboxImageFromTiles env box requestedZoom allow))) = 0 \<or>
       length (snd (loadBboxImageFromTiles env box requestedZoom allow)) = 6)) \<and>
   (\<forall>i. i < length (snd (loadBboxImageFromTiles env box requestedZoom allow)) \<and>
        at_error (snd (loadBboxImageFromTiles env box requestedZoom allow) ! i) \<noteq> None \<and>
        0 < at_zoom (snd (loadBboxImageFromTiles env box requestedZoom allow) ! i) \<and> i < 5 \<longrightarrow>
      Suc i < length (snd (loadBboxImageFromTiles env box requestedZoom allow)))"
proof -
  define A where "A = loadBboxImageFromTiles env box requestedZoom allow"
  have Adef: "A = attempt_loop env box allow 6 0 (initialZoom requestedZoom) 0 NoError"
    by (simp add: A_def loadBboxImageFromTiles_def)
  have six: "0 < (6::nat)" by simp
  have 1: "snd A \<noteq> []" "at_zoom (hd (snd A)) = reduceZoom box (initialZoom requestedZoom)"
    unfolding Adef using attempt_loop_first [OF six] by blast+
  have 2: "length (snd A) \<le> 6"
    unfolding Adef by (rule attempt_loop_length)
  have 3: "at_error (snd A ! i) \<noteq> None \<and> 0 < at_zoom (snd A ! i) \<and>
           at_zoom (snd A ! Suc i) = reduceZoom box (at_zoom (snd A ! i) - 1)"
    if "Suc i < length (snd A)" for i
    using that unfolding Adef by (rule attempt_loop_chain)
  note res = attempt_loop_result [OF six, of env box allow 0 "initialZoom requestedZoom" 0 NoError,
      folded Adef]
  have 4: "at_error (last (snd A)) = Some err \<and> (at_zoom (last (snd A)) = 0 \<or> length (snd A) = 6)"
    if "fst A = Inl err" for err
    using res that by simp
  have 5: "Suc i < length (snd A)"
    if "i < length (snd A) \<and> at_error (snd A ! i) \<noteq> None \<and> 0 < at_zoom (snd A ! i) \<and> i < 5" for i
  proof (rule ccontr)
    assume "\<not> Suc i < length (snd A)"
    with that have i: "i = length (snd A) - 1" by arith
    with 1 have l: "last (snd A) = snd A ! i" by (simp add: last_conv_nth)
    show False
    proof (cases "fst A")
      case (Inl err)
      from 4 [OF this] l that i show False by auto
    next
      case (Inr m)
      with res l that show False by simp
    qed
  qed
  from 1 2 3 4 5 show ?thesis
    unfolding A_def by blast
qed

text \<open>The two example servers.\<close>

lemma fetch_tiles_up: "fetch_tiles server_up allow z ts k missing = (Inr missing, k + length ts)"
  by (induction ts arbitrary: k) (auto simp: server_up_def)

lemma run_attempt_up:
  assumes "0 < tilesX c * tilesY c"
  shows "\<exists>m. run_attempt server_up True attempt z c k = (Inr m, k + length (tile_list c))"
  using assms by (simp add: run_attempt_def fetch_tiles_up Let_def) (simp add: server_up_def)

lemma tile_list_first:
  assumes "x0 c \<le> x1 c" "y0 c \<le> y1 c"
  shows "\<exists>ts. tile_list c = (x0 c, y0 c) # ts"
proof -
  from assms have "[x0 c..x1 c] = x0 c # [x0 c + 1..x1 c]" "[y0 c..y1 c] = y0 c # [y0 c + 1..y1 c]"
    by (simp_all add: upto_rec1)
  then show ?thesis by (simp add: tile_list_def)
qed

lemma run_attempt_down:
  assumes "1 \<le> tilesX (calc box z)" "1 \<le> tilesY (calc box z)"
  shows "run_attempt server_down False attempt z (calc box z) k =
           (Inl (TileFetchFailed z (x0 (calc box z)) (y0 (calc box z))), Suc k)"
proof -
  from assms have "x0 (calc box z) \<le> x1 (calc box z)" "y0 (calc box z) \<le> y1 (calc box z)"
    by (simp_all add: calc_fields(5,6))
  from tile_list_first [OF this] obtain ts where
    "tile_list (calc box z) = (x0 (calc box z), y0 (calc box z)) # ts" ..
  then show ?thesis
    by (simp add: run_attempt_def) (simp add: server_down_def)
qed

lemma attempt_loop_down:
  assumes "0 < r" "0 < z" "1 \<le> tilesX (calc box z)" "1 \<le> tilesY (calc box z)"
    and "tilesX (calc box z) * tilesY (calc box z) \<le> maxTiles"
  shows "isl (fst (attempt_loop server_down box False r attempt z k e)) =
           isl (fst (attempt_loop server_down box False (r - 1) (Suc attempt) (z - 1) (Suc k)
                  (TileFetchFailed z (x0 (calc box z)) (y0 (calc box z))))) \<and>
         map at_zoom (snd (attempt_loop server_down box False r attempt z k e)) =
           z # map at_zoom (snd (attempt_loop server_down box False (r - 1) (Suc attempt) (z - 1)
                  (Suc k) (TileFetchFailed z (x0 (calc box z)) (y0 (calc box z)))))"
proof -
  from assms(1) obtain r' where r: "r = Suc r'" by (cases r) auto
  from reduceZoom_id [OF assms(5)] have id: "reduceZoom box z = z" .
  from run_attempt_down [OF assms(3,4), of attempt k]
  have "run_attempt server_down False attempt (reduceZoom box z) (calc box (reduceZoom box z)) k =
          (Inl (TileFetchFailed z (x0 (calc box z)) (y0 (calc box z))), Suc k)"
    by (simp add: id)
  from attempt_loop_retry [OF this, of r' e] assms(2) show ?thesis
    by (simp add: id r)
qed

lemma unit_box_down:
  assumes "0 < r" "0 < z" "z \<le> 6"
  shows "isl (fst (attempt_loop server_down unit_box False r attempt z k e)) =
           isl (fst (attempt_loop server_down unit_box False (r - 1) (Suc attempt) (z - 1) (Suc k)
                  (TileFetchFailed z (x0 (calc unit_box z)) (y0 (calc unit_box z))))) \<and>
         map at_zoom (snd (attempt_loop server_down unit_box False r attempt z k e)) =
           z # map at_zoom (snd (attempt_loop server_down unit_box False (r - 1) (Suc attempt)
                  (z - 1) (Suc k) (TileFetchFailed z (x0 (calc unit_box z)) (y0 (calc unit_box z)))))"
proof (rule attempt_loop_down [OF assms(1,2)])
  from unit_box_tiles [OF assms(3)]
  show "1 \<le> tilesX (calc unit_box z)" "1 \<le> tilesY (calc unit_box z)"
    "tilesX (calc unit_box z) * tilesY (calc unit_box z) \<le> maxTiles"
    by (simp_all add: maxTiles_def)
qed

lemma initialZoom_examples: "initialZoom 0 = 0" "initialZoom 6 = 6"
  by (simp_all add: initialZoom_def js_round_def)

lemma load_down_unit:
  "isl (fst (loadBboxImageFromTiles server_down unit_box 6 False)) \<and>
   map at_zoom (snd (loadBboxImageFromTiles server_down unit_box 6 False)) = [6, 5, 4, 3, 2, 1]"
  by (simp add: loadBboxImageFromTiles_def initialZoom_examples unit_box_down
      del: attempt_loop.simps(2))

lemma load_up_wide:
  "snd (loadBboxImageFromTiles server_up wide_box 0 True) =
     [\<lparr>at_zoom = 0, at_fetches = 41, at_error = None\<rparr>]"
proof -
  have t: "0 < tilesX (calc wide_box 0) * tilesY (calc wide_box 0)"
    using wide_box_tiles by simp
  have l: "length (tile_list (calc wide_box 0)) = 41"
    using wide_box_tiles by (simp add: length_tile_list)
  from run_attempt_up [OF t, of 0 0 0] l obtain m where
    "run_attempt server_up True 0 (reduceZoom wide_box 0) (calc wide_box (reduceZoom wide_box 0)) 0
       = (Inr m, 41)"
    by auto
  from attempt_loop_success [OF this, of 5 NoError] show ?thesis
    by (simp add: loadBboxImageFromTiles_def initialZoom_examples)
qed

theorem loader_tile_budget_witness:
  "(- 180::real) \<le> 0 \<and> (0::real) \<le> 180 \<and> (- 180::real) \<le> 1 \<and> (1::real) \<le> 180 \<and>
   hd (snd (loadBboxImageFromTiles server_down unit_box 6 False))
     \<in> set (snd (loadBboxImageFromTiles server_down unit_box 6 False)) \<and>
   0 < at_zoom (hd (snd (loadBboxImageFromTiles server_down unit_box 6 False))) \<and>
   within_budget unit_box (hd (snd (loadBboxImageFromTiles server_down unit_box 6 False)))"
proof -
  define A where "A = snd (loadBboxImageFromTiles server_down unit_box 6 False)"
  from load_down_unit have m: "map at_zoom A = [6, 5, 4, 3, 2, 1]"
    by (simp add: A_def)
  then have ne: "A \<noteq> []" by auto
  then have mem: "hd A \<in> set A" by simp
  from ne have "at_zoom (hd A) = hd (map at_zoom A)"
    by (simp add: hd_map)
  then have z: "0 < at_zoom (hd A)" by (simp add: m)
  from loader_tile_budget [of server_down 0 0 1 1 6 False] mem z
  have "within_budget unit_box (hd A)"
    unfolding A_def unit_box_def by blast
  with mem z show ?thesis
    unfolding A_def by simp
qed

text \<open>
  Claim C4 as stated fails: for the box from longitude -7020 to 7380 at requested zoom 0,
  with a server that answers every request, the single attempt is made at zoom 0, its
  tile range has 41 tiles, and it issues 41 tile requests.
\<close>

theorem loader_tile_budget_counterexample:
  "snd (loadBboxImageFromTiles server_up wide_box 0 True) =
     [\<lparr>at_zoom = 0, at_fetches = 41, at_error = None\<rparr>] \<and>
   tilesX (calc wide_box 0) * tilesY (calc wide_box 0) = 41 \<and>
   \<not> within_budget wide_box \<lparr>at_zoom = 0, at_fetches = 41, at_error = None\<rparr>"
  using load_up_wide wide_box_tiles by (simp add: within_budget_def maxTiles_def)

theorem loader_retry_policy_witness:
  "length (snd (loadBboxImageFromTiles server_down unit_box 6 False)) = 6 \<and>
   at_zoom (snd (loadBboxImageFromTiles server_down unit_box 6 False) ! 0) = 6 \<and>
   at_zoom (snd (loadBboxImageFromTiles server_down unit_box 6 False) ! Suc 0) =
     reduceZoom unit_box (6 - 1) \<and>
   fst (loadBboxImageFromTiles server_down unit_box 6 False) =
     Inl (projl (fst (loadBboxImageFromTiles server_down unit_box 6 False))) \<and>
   at_error (last (snd (loadBboxImageFromTiles server_down unit_box 6 False))) =
     Some (projl (fst (loadBboxImageFromTiles server_down unit_box 6 False)))"
proof -
  define A where "A = loadBboxImageFromTiles server_down unit_box 6 False"
  note th = loader_retry_policy [of server_down unit_box 6 False, folded A_def]
  from load_down_unit have m: "map at_zoom (snd A) = [6, 5, 4, 3, 2, 1]" and i: "isl (fst A)"
    by (simp_all add: A_def)
  from m have "length (map at_zoom (snd A)) = 6" by simp
  then have l: "length (snd A) = 6" by simp
  from l have "at_zoom (snd A ! 0) = map at_zoom (snd A) ! 0"
    by simp
  then have z0: "at_zoom (snd A ! 0) = 6" by (simp add: m)
  from l have "Suc 0 < length (snd A)" by simp
  with th have "at_zoom (snd A ! Suc 0) = reduceZoom unit_box (at_zoom (snd A ! 0) - 1)"
    by blast
  with z0 have z1: "at_zoom (snd A ! Suc 0) = reduceZoom unit_box (6 - 1)" by simp
  from i have e: "fst A = Inl (projl (fst A))" by simp
  with th have "at_error (last (snd A)) = Some (projl (fst A))" by blast
  with l z0 z1 e show ?thesis
    unfolding A_def by blast
qed

text \<open>
  Claim C5 as stated fails: with a server that refuses every request, a one-degree box and
  requested zoom 6, the call fails after six attempts at the zooms 6, 5, 4, 3, 2 and 1.
  No attempt was made at zoom 0, and the failed attempt at zoom 1 was not retried.
\<close>

theorem loader_retry_policy_counterexample:
  "isl (fst (loadBboxImageFromTiles server_down unit_box 6 False)) \<and>
   map at_zoom (snd (loadBboxImageFromTiles server_down unit_box 6 False)) = [6, 5, 4, 3, 2, 1]"
  by (rule load_down_unit)

end
